theory Spec2Isabelle
  imports Main "HOL-Library.Word"
begin

section \<open>C integers, raw buffers and kernel launches\<close>

text \<open>
  The two device kernels of \<^verbatim>\<open>decomp_lu.py\<close> are C++ bodies that do their index
  arithmetic in \<^verbatim>\<open>int\<close> (32-bit two's complement) and address raw buffers through
  pointers. \<open>c_int\<close> is the value an \<^verbatim>\<open>int\<close> holds after an operation whose exact
  result is \<open>x\<close>; a raw buffer is a list, and an access outside it has no value.
\<close>

definition c_int :: "int \<Rightarrow> int" where
  "c_int x = signed_take_bit 31 x"

definition rd :: "'a list \<Rightarrow> int \<Rightarrow> 'a option" where
  "rd buf a = (if 0 \<le> a \<and> a < int (length buf) then Some (buf ! nat a) else None)"

definition wr :: "'a list \<Rightarrow> int \<Rightarrow> 'a \<Rightarrow> 'a list option" where
  "wr buf a v = (if 0 \<le> a \<and> a < int (length buf) then Some (buf[nat a := v]) else None)"

text \<open>
  An elementwise kernel launched with \<^verbatim>\<open>size=n\<close> runs its body once for every task
  index \<open>i\<close> of the schedule; \<open>launch\<close> runs the tasks of a schedule one after the other
  and stops at the first faulting access. The schedule of a launch of size \<open>n\<close> taken
  in index order is \<open>tasks n\<close>.
\<close>

fun launch :: "(int \<Rightarrow> 's \<Rightarrow> 's option) \<Rightarrow> int list \<Rightarrow> 's \<Rightarrow> 's option" where
  "launch body [] s = Some s"
| "launch body (i # sched) s =
     (case body i s of None \<Rightarrow> None | Some s' \<Rightarrow> launch body sched s')"

definition tasks :: "nat \<Rightarrow> int list" where
  "tasks n = map int [0..<n]"

section \<open>The kernel \<^verbatim>\<open>cupy_split_lu\<close>\<close>

text \<open>
  \<^verbatim>\<open>int row = i / N; int col = i % N;\<close> The task index is never negative and a task
  only exists when \<open>N\<close> is positive, where C's truncating \<^verbatim>\<open>/\<close> and \<^verbatim>\<open>%\<close> are
  \<open>div\<close> and \<open>mod\<close>.
\<close>

definition split_lu_row :: "int \<Rightarrow> int \<Rightarrow> int" where
  "split_lu_row N i = c_int (i div N)"

definition split_lu_col :: "int \<Rightarrow> int \<Rightarrow> int" where
  "split_lu_col N i = c_int (i mod N)"

text \<open>\<^verbatim>\<open>T lu_val = ptr_LU[row + col * M];\<close>\<close>

definition split_lu_src :: "int \<Rightarrow> int \<Rightarrow> int \<Rightarrow> int" where
  "split_lu_src M N i = c_int (split_lu_row N i + c_int (split_lu_col N i * M))"

text \<open>The branch on \<open>row\<close> and \<open>col\<close> that chooses \<open>(l_val, u_val)\<close>.\<close>

definition split_lu_vals :: "int \<Rightarrow> int \<Rightarrow> 'a \<Rightarrow> ('a::{zero,one}) \<times> 'a" where
  "split_lu_vals row col lu_val =
     (if row > col then (lu_val, 0)
      else if row = col then (1, lu_val)
      else (0, lu_val))"

text \<open>
  \<^verbatim>\<open>if (col < K) ptr_L[col + row * K] = l_val;\<close> and
  \<^verbatim>\<open>if (row < K) ptr_U[col + row * N] = u_val;\<close>: the address a task writes in each
  output, if it writes there at all.
\<close>

definition split_lu_L_addr :: "int \<Rightarrow> int \<Rightarrow> int \<Rightarrow> int option" where
  "split_lu_L_addr N K i =
     (let row = split_lu_row N i; col = split_lu_col N i
      in if col < K then Some (c_int (col + c_int (row * K))) else None)"

definition split_lu_U_addr :: "int \<Rightarrow> int \<Rightarrow> int \<Rightarrow> int option" where
  "split_lu_U_addr N K i =
     (let row = split_lu_row N i; col = split_lu_col N i
      in if row < K then Some (c_int (col + c_int (row * N))) else None)"

definition guarded_wr :: "'a list \<Rightarrow> int option \<Rightarrow> 'a \<Rightarrow> 'a list option" where
  "guarded_wr buf ao v = (case ao of None \<Rightarrow> Some buf | Some a \<Rightarrow> wr buf a v)"

definition split_lu_task ::
  "'a list \<Rightarrow> int \<Rightarrow> int \<Rightarrow> int \<Rightarrow> int \<Rightarrow> 'a list \<times> 'a list
     \<Rightarrow> (('a::{zero,one}) list \<times> 'a list) option" where
  "split_lu_task LU M N K i s =
     (case rd LU (split_lu_src M N i) of
        None \<Rightarrow> None
      | Some lu_val \<Rightarrow>
          (let (l_val, u_val) = split_lu_vals (split_lu_row N i) (split_lu_col N i) lu_val
           in case guarded_wr (fst s) (split_lu_L_addr N K i) l_val of
                None \<Rightarrow> None
              | Some L' \<Rightarrow>
                  (case guarded_wr (snd s) (split_lu_U_addr N K i) u_val of
                     None \<Rightarrow> None
                   | Some U' \<Rightarrow> Some (L', U'))))"

text \<open>
  \<^verbatim>\<open>cupy.empty\<close> allocates without initialising: the buffer holds whatever the memory
  held before, here the values \<open>junk\<close>.
\<close>

definition cupy_empty :: "nat \<Rightarrow> (nat \<Rightarrow> 'a) \<Rightarrow> 'a list" where
  "cupy_empty n junk = map junk [0..<n]"

text \<open>
  Lines 96 to 101 of \<^verbatim>\<open>lu\<close>: the shapes \<open>(m, k)\<close> and \<open>(k, n)\<close> with
  \<open>k = min m n\<close>, the two uninitialised outputs, and the launch of size \<open>m * n\<close>.
  The result is the pair of row-major buffers \<open>(L, U)\<close>.
\<close>

definition split_lu ::
  "int list \<Rightarrow> 'a list \<Rightarrow> nat \<Rightarrow> nat \<Rightarrow> (nat \<Rightarrow> 'a) \<Rightarrow> (nat \<Rightarrow> 'a)
     \<Rightarrow> (('a::{zero,one}) list \<times> 'a list) option" where
  "split_lu sched LU m n junkL junkU =
     (let k = min m n;
          L = cupy_empty (m * k) junkL;
          U = cupy_empty (k * n) junkU
      in launch (split_lu_task LU (int m) (int n) (int k)) sched (L, U))"

text \<open>
  The value each cell of the two factors is meant to receive, read off the packed
  buffer (column-major, \<open>m\<close> rows).
\<close>

definition L_expected :: "('a::{zero,one}) list \<Rightarrow> nat \<Rightarrow> nat \<Rightarrow> nat \<Rightarrow> 'a" where
  "L_expected LU m row col =
     (if row > col then LU ! (row + col * m) else if row = col then 1 else 0)"

definition U_expected :: "('a::{zero,one}) list \<Rightarrow> nat \<Rightarrow> nat \<Rightarrow> nat \<Rightarrow> 'a" where
  "U_expected LU m row col = (if row > col then 0 else LU ! (row + col * m))"


section \<open>The kernel \<^verbatim>\<open>cupy_laswp\<close>\<close>

text \<open>
  The pivot array \<^verbatim>\<open>PIV\<close> holds C ints (\<^verbatim>\<open>numpy.intc\<close>, as \<^verbatim>\<open>_lu_factor\<close>
  allocates it): \<^verbatim>\<open>int row_j = PIV[row_k];\<close> reads one as a signed value.

  The three lines of the swap, on the cells \<^verbatim>\<open>col + row_k * N\<close> and
  \<^verbatim>\<open>col + row_j * N\<close> of the row-major target:
\<close>

definition laswp_swap :: "int \<Rightarrow> int \<Rightarrow> int \<Rightarrow> int \<Rightarrow> 'a list \<Rightarrow> 'a list option" where
  "laswp_swap N col row_k row_j A =
     (let a_k = c_int (col + c_int (row_k * N));
          a_j = c_int (col + c_int (row_j * N))
      in case rd A a_k of
           None \<Rightarrow> None
         | Some tmp \<Rightarrow>
             (case rd A a_j of
                None \<Rightarrow> None
              | Some x \<Rightarrow>
                  (case wr A a_k x of
                     None \<Rightarrow> None
                   | Some A' \<Rightarrow> wr A' a_j tmp)))"

text \<open>One iteration of the loop: the read of the pivot, the \<^verbatim>\<open>continue\<close>, the swap.\<close>

definition laswp_iter :: "int \<Rightarrow> 32 word list \<Rightarrow> int \<Rightarrow> int \<Rightarrow> 'a list \<Rightarrow> 'a list option" where
  "laswp_iter N PIV col row_k A =
     (case rd PIV row_k of
        None \<Rightarrow> None
      | Some p \<Rightarrow>
          (let row_j = sint p
           in if row_j \<le> row_k then Some A else laswp_swap N col row_k row_j A))"

text \<open>
  \<^verbatim>\<open>for (int row_k = 0; row_k < K; row_k++)\<close>. The counter stays below the C int
  \<open>K\<close>, so the increment does not overflow.
\<close>

function laswp_loop ::
  "int \<Rightarrow> int \<Rightarrow> 32 word list \<Rightarrow> int \<Rightarrow> int \<Rightarrow> 'a list \<Rightarrow> 'a list option" where
  "laswp_loop N K PIV col row_k A =
     (if row_k < K
      then (case laswp_iter N PIV col row_k A of
              None \<Rightarrow> None
            | Some A' \<Rightarrow> laswp_loop N K PIV col (row_k + 1) A')
      else Some A)"
  by pat_completeness auto
termination
  by (relation "measure (\<lambda>(N, K, PIV, col, row_k, A). nat (K - row_k))") auto

declare laswp_loop.simps [simp del]

text \<open>The body of the kernel for task \<open>i\<close>: \<^verbatim>\<open>int col = i;\<close> and the loop.\<close>

definition laswp_task ::
  "int \<Rightarrow> int \<Rightarrow> int \<Rightarrow> 32 word list \<Rightarrow> int \<Rightarrow> 'a list \<Rightarrow> 'a list option" where
  "laswp_task M N K PIV i A = laswp_loop N K PIV (c_int i) 0 A"

text \<open>
  The same iteration replayed over the rows in a given order; the kernel's loop is the
  replay over \<open>0, \<dots>, K - 1\<close> ascending.
\<close>

fun laswp_replay ::
  "int \<Rightarrow> 32 word list \<Rightarrow> int \<Rightarrow> int list \<Rightarrow> 'a list \<Rightarrow> 'a list option" where
  "laswp_replay N PIV col [] A = Some A"
| "laswp_replay N PIV col (row_k # rows) A =
     (case laswp_iter N PIV col row_k A of
        None \<Rightarrow> None
      | Some A' \<Rightarrow> laswp_replay N PIV col rows A')"

text \<open>
  Lines 108 and 109 of \<^verbatim>\<open>lu\<close>: \<^verbatim>\<open>cupy.diag(cupy.ones((m,)))\<close> is the \<open>m\<close> by
  \<open>m\<close> matrix, row-major, with ones on the diagonal and zeros elsewhere, and the kernel
  is launched on it with one task for each of its \<open>m\<close> columns.
\<close>

definition diag_ones :: "nat \<Rightarrow> ('a::{zero,one}) list" where
  "diag_ones m = map (\<lambda>a. if a div m = a mod m then 1 else 0) [0..<m * m]"

definition permutation_from_pivots ::
  "int list \<Rightarrow> nat \<Rightarrow> nat \<Rightarrow> 32 word list \<Rightarrow> (('a::{zero,one}) list) option" where
  "permutation_from_pivots sched m k piv =
     launch (laswp_task (int m) (int m) (int k) piv) sched (diag_ones m)"

text \<open>
  A permutation matrix of order \<open>m\<close>, row-major: every entry is \<open>0\<close> or \<open>1\<close>, and
  every row and every column holds exactly one \<open>1\<close>.
\<close>

definition is_permutation_matrix :: "nat \<Rightarrow> ('a::{zero,one}) list \<Rightarrow> bool" where
  "is_permutation_matrix m P \<longleftrightarrow>
     length P = m * m
     \<and> list_all (\<lambda>x. x = 0 \<or> x = 1) P
     \<and> list_all (\<lambda>r. length (filter (\<lambda>c. P ! (c + r * m) = 1) [0..<m]) = 1) [0..<m]
     \<and> list_all (\<lambda>c. length (filter (\<lambda>r. P ! (c + r * m) = 1) [0..<m]) = 1) [0..<m]"

subsection \<open>The sequential row exchange\<close>

text \<open>
  The algorithm the kernel stands for, in the words of the specification: for each
  \<open>row_k\<close> of the order, read \<open>row_j\<close> from the pivot vector, skip when
  \<open>row_j \<le> row_k\<close>, otherwise exchange the whole rows \<open>row_k\<close> and \<open>row_j\<close> of the
  matrix (row-major, \<open>n\<close> columns).
\<close>

definition exchange_rows :: "nat \<Rightarrow> nat \<Rightarrow> nat \<Rightarrow> 'a list \<Rightarrow> 'a list" where
  "exchange_rows n r1 r2 A =
     map (\<lambda>a. if a div n = r1 then A ! (a mod n + r2 * n)
              else if a div n = r2 then A ! (a mod n + r1 * n)
              else A ! a) [0..<length A]"

fun sequential_laswp :: "nat \<Rightarrow> int list \<Rightarrow> nat list \<Rightarrow> 'a list \<Rightarrow> 'a list" where
  "sequential_laswp n pivots [] A = A"
| "sequential_laswp n pivots (row_k # rows) A =
     (let row_j = pivots ! row_k
      in if row_j \<le> int row_k then sequential_laswp n pivots rows A
         else sequential_laswp n pivots rows (exchange_rows n row_k (nat row_j) A))"

text \<open>
  The row of the input that a replay over \<open>rows\<close> brings to row \<open>r\<close>: the exchanges
  composed, the first of the order outermost.
\<close>

fun source_row :: "int list \<Rightarrow> nat list \<Rightarrow> nat \<Rightarrow> nat" where
  "source_row pivots [] r = r"
| "source_row pivots (row_k # rows) r =
     (let row_j = pivots ! row_k; s = source_row pivots rows r
      in if row_j \<le> int row_k then s
         else if s = row_k then nat row_j
         else if s = nat row_j then row_k
         else s)"

section \<open>Arrays, the external primitives and the state a call runs in\<close>

text \<open>
  The dtypes of NumPy with the two attributes the code reads: \<^verbatim>\<open>dtype.char\<close> and
  \<^verbatim>\<open>dtype.kind\<close>.
\<close>

datatype dtype = Bool | Int32 | Int64 | Float16 | Float32 | Float64 | Complex64 | Complex128

fun dtype_char :: "dtype \<Rightarrow> char" where
  "dtype_char Bool = CHR ''?''"
| "dtype_char Int32 = CHR ''i''"
| "dtype_char Int64 = CHR ''l''"
| "dtype_char Float16 = CHR ''e''"
| "dtype_char Float32 = CHR ''f''"
| "dtype_char Float64 = CHR ''d''"
| "dtype_char Complex64 = CHR ''F''"
| "dtype_char Complex128 = CHR ''D''"

fun dtype_kind :: "dtype \<Rightarrow> char" where
  "dtype_kind Bool = CHR ''b''"
| "dtype_kind Int32 = CHR ''i''"
| "dtype_kind Int64 = CHR ''i''"
| "dtype_kind Float16 = CHR ''f''"
| "dtype_kind Float32 = CHR ''f''"
| "dtype_kind Float64 = CHR ''f''"
| "dtype_kind Complex64 = CHR ''c''"
| "dtype_kind Complex128 = CHR ''c''"

text \<open>
  A numeric array is its shape, its dtype and its buffer, which is laid out either
  column-major (\<open>f_order\<close>) or row-major. The element type \<open>'a\<close> is left open. Numeric
  arrays are passed by value here: what a call does to the storage of the caller's
  own numeric arrays (\<^verbatim>\<open>overwrite_a\<close>, \<^verbatim>\<open>overwrite_b\<close>) is not part of the model.
\<close>

record 'a ndarray =
  shape :: "nat list"
  dtype :: dtype
  f_order :: bool
  buf :: "'a list"

text \<open>The routines of cuSOLVER the code selects by dtype, and the modes of cuBLAS.\<close>

datatype routine = RoutineS | RoutineD | RoutineC | RoutineZ

datatype cublas_op = CUBLAS_OP_N | CUBLAS_OP_T | CUBLAS_OP_C

text \<open>
  What lies outside the two source files and is taken as given:
  \<^item> \<open>isfinite\<close>: \<^verbatim>\<open>cupy.isfinite\<close> on one element (false for NaN and the infinities);
  \<^item> \<open>cast\<close>: the conversion of one element from a dtype to another, as
    \<^verbatim>\<open>astype\<close> does it;
  \<^item> \<open>getrf routine m n a\<close>: the factorization primitive on the column-major buffer
    \<open>a\<close>; it returns the buffer as it leaves it, the pivots it writes (1-origin) and
    the status it writes to \<^verbatim>\<open>dev_info\<close>;
  \<^item> \<open>getrs routine op m n lu ipiv b\<close>: the solve primitive, which reads the factor and
    the pivots and returns the right-hand side as it leaves it and the status.
\<close>

record 'a backend =
  isfinite :: "'a \<Rightarrow> bool"
  cast :: "dtype \<Rightarrow> dtype \<Rightarrow> 'a \<Rightarrow> 'a"
  getrf :: "routine \<Rightarrow> nat \<Rightarrow> nat \<Rightarrow> 'a list \<Rightarrow> 'a list \<times> 32 word list \<times> 32 word"
  getrs :: "routine \<Rightarrow> cublas_op \<Rightarrow> nat \<Rightarrow> nat \<Rightarrow> 'a list \<Rightarrow> 32 word list \<Rightarrow> 'a list
              \<Rightarrow> 'a list \<times> 32 word"

text \<open>
  The exceptions the two functions raise, by what they report, and the one warning.
  All but the first two and the last two are \<^verbatim>\<open>ValueError\<close>s.
\<close>

datatype error =
    LinAlgError_not_two_dimensional
  | LinAlgError_not_square
  | ValueError_unsupported_dtype dtype
  | ValueError_not_finite
  | ValueError_not_finite_lu
  | ValueError_illegal_value_getrf int
  | ValueError_illegal_value_getrs int
  | ValueError_incompatible_dimensions
  | ValueError_unknown_trans
  | IndexError
  | KernelFault

datatype warning = RuntimeWarning_singular int

datatype 'a call =
    Getrf routine nat nat "'a list"
  | Getrs routine cublas_op nat nat "'a list" "32 word list" "'a list"

text \<open>
  Pivot arrays are passed by reference: \<open>ints\<close> holds the integer arrays allocated so
  far, and a reference is a position in it. The state also records the warnings
  emitted and the invocations of the primitives, with the contents of their arguments.
\<close>

record 'a world =
  ints :: "32 word list list"
  warnings :: "warning list"
  calls :: "'a call list"

definition alloc_ints :: "32 word list \<Rightarrow> 'a world \<Rightarrow> nat \<times> 'a world" where
  "alloc_ints v w = (length (ints w), w\<lparr>ints := ints w @ [v]\<rparr>)"

definition update_ints :: "nat \<Rightarrow> (32 word list \<Rightarrow> 32 word list) \<Rightarrow> 'a world \<Rightarrow> 'a world" where
  "update_ints r f w = w\<lparr>ints := (ints w)[r := f (ints w ! r)]\<rparr>"

definition warn :: "warning \<Rightarrow> 'a world \<Rightarrow> 'a world" where
  "warn x w = w\<lparr>warnings := warnings w @ [x]\<rparr>"

definition record_call :: "'a call \<Rightarrow> 'a world \<Rightarrow> 'a world" where
  "record_call c w = w\<lparr>calls := calls w @ [c]\<rparr>"

subsection \<open>\<^verbatim>\<open>astype(dtype, order='F', copy=...)\<close>\<close>

text \<open>
  The buffer of a row-major array laid out again column-major. A row-major buffer of
  shape \<open>d # ds\<close> is \<open>d\<close> blocks, one for each value of the first index, each block
  row-major of shape \<open>ds\<close>; column-major, the first index runs fastest, so the blocks,
  each laid out column-major in turn, are interleaved element by element. A buffer
  that is column-major already stays as it is.
\<close>

fun fortran_layout :: "nat list \<Rightarrow> 'a list \<Rightarrow> 'a list" where
  "fortran_layout [] xs = xs"
| "fortran_layout (d # ds) xs =
     concat (transpose
       (map (\<lambda>i. fortran_layout ds (take (prod_list ds) (drop (i * prod_list ds) xs)))
          [0..<d]))"

definition to_fortran :: "nat list \<Rightarrow> bool \<Rightarrow> 'a list \<Rightarrow> 'a list" where
  "to_fortran shp f xs = (if f then xs else fortran_layout shp xs)"

definition astype :: "'a backend \<Rightarrow> 'a ndarray \<Rightarrow> dtype \<Rightarrow> 'a ndarray" where
  "astype ext a d =
     \<lparr>shape = shape a, dtype = d, f_order = True,
      buf = map (if dtype a = d then (\<lambda>x. x) else cast ext (dtype a) d)
              (to_fortran (shape a) (f_order a) (buf a))\<rparr>"

text \<open>\<^verbatim>\<open>cupy.isfinite(a).all()\<close>\<close>

definition all_finite :: "'a backend \<Rightarrow> 'a ndarray \<Rightarrow> bool" where
  "all_finite ext a = list_all (isfinite ext) (buf a)"

subsection \<open>The checks of \<^verbatim>\<open>cupy.linalg.util\<close>\<close>

text \<open>
  Modelled from the spec: \<^verbatim>\<open>util._assert_rank2\<close> and
  \<^verbatim>\<open>util._assert_nd_squareness\<close> are not among the source files. The first fails when
  the input is not rank-2; the second, by its name, when the last two dimensions
  differ. (\<^verbatim>\<open>util._assert_cupy_array\<close> checks the Python type of its argument, which
  the type \<open>'a ndarray\<close> fixes.)
\<close>

definition assert_rank2 :: "'a ndarray \<Rightarrow> error option" where
  "assert_rank2 a = (if length (shape a) \<noteq> 2 then Some LinAlgError_not_two_dimensional else None)"

definition assert_nd_squareness :: "'a ndarray \<Rightarrow> error option" where
  "assert_nd_squareness a =
     (if length (shape a) < 2 \<or> last (shape a) \<noteq> last (butlast (shape a))
      then Some LinAlgError_not_square else None)"

section \<open>Factorization: \<^verbatim>\<open>_lu_factor\<close> and \<^verbatim>\<open>lu_factor\<close>\<close>

text \<open>The dispatch on \<^verbatim>\<open>dtype.char\<close>, shared by \<^verbatim>\<open>_lu_factor\<close> and \<^verbatim>\<open>lu_solve\<close>.\<close>

definition routine_for :: "dtype \<Rightarrow> routine option" where
  "routine_for d =
     (if dtype_char d = CHR ''f'' then Some RoutineS
      else if dtype_char d = CHR ''d'' then Some RoutineD
      else if dtype_char d = CHR ''F'' then Some RoutineC
      else if dtype_char d = CHR ''D'' then Some RoutineZ
      else None)"

text \<open>\<^verbatim>\<open>ipiv -= 1\<close> and \<^verbatim>\<open>ipiv += 1\<close> on an array of C ints.\<close>

definition to_zero_origin :: "32 word list \<Rightarrow> 32 word list" where
  "to_zero_origin piv = map (\<lambda>p. p - 1) piv"

definition to_one_origin :: "32 word list \<Rightarrow> 32 word list" where
  "to_one_origin piv = map (\<lambda>p. p + 1) piv"

text \<open>
  \<^verbatim>\<open>_lu_factor(a, overwrite_a, check_finite)\<close>. The result is the packed array and the
  reference of the pivot array, or the exception raised; the state is returned in
  both cases. The pivot array is allocated for the primitive to fill, here with what
  the primitive writes. The status \<^verbatim>\<open>dev_info[0]\<close> is a C int, and so is its negation
  in the message of the error.
\<close>

definition private_lu_factor ::
  "'a backend \<Rightarrow> 'a world \<Rightarrow> 'a ndarray \<Rightarrow> bool \<Rightarrow> bool
     \<Rightarrow> (error + 'a ndarray \<times> nat) \<times> 'a world" where
  "private_lu_factor ext w a overwrite_a check_finite =
     (case assert_rank2 a of
        Some e \<Rightarrow> (Inl e, w)
      | None \<Rightarrow>
          (case routine_for (dtype a) of
             None \<Rightarrow> (Inl (ValueError_unsupported_dtype (dtype a)), w)
           | Some r \<Rightarrow>
               (let a1 = astype ext a (dtype a)
                in if check_finite \<and> dtype_kind (dtype a1) = CHR ''f'' \<and> \<not> all_finite ext a1
                   then (Inl ValueError_not_finite, w)
                   else
                     (let m = shape a1 ! 0;
                          n = shape a1 ! 1;
                          (out, ipiv, dev_info) = getrf ext r m n (buf a1);
                          (ref, w1) = alloc_ints ipiv w;
                          w2 = record_call (Getrf r m n (buf a1)) w1
                      in if sint dev_info < 0
                         then (Inl (ValueError_illegal_value_getrf (sint (- dev_info))), w2)
                         else
                           (let w3 = (if sint dev_info > 0
                                      then warn (RuntimeWarning_singular (sint dev_info)) w2
                                      else w2);
                                w4 = update_ints ref to_zero_origin w3
                            in (Inr (a1\<lparr>buf := out\<rparr>, ref), w4))))))"

definition lu_factor ::
  "'a backend \<Rightarrow> 'a world \<Rightarrow> 'a ndarray \<Rightarrow> bool \<Rightarrow> bool
     \<Rightarrow> (error + 'a ndarray \<times> nat) \<times> 'a world" where
  "lu_factor ext w a overwrite_a check_finite = private_lu_factor ext w a overwrite_a check_finite"

section \<open>Extraction: \<^verbatim>\<open>lu\<close>\<close>

datatype 'a lu_result =
    PL_U "'a ndarray" "'a ndarray"
  | P_L_U "'a ndarray" "'a ndarray" "'a ndarray"

text \<open>
  \<^verbatim>\<open>lu(a, permute_l, overwrite_a, check_finite)\<close>. The kernels are launched with their
  tasks in index order; \<open>junkL\<close> and \<open>junkU\<close> are what the uninitialised outputs hold.
  \<^verbatim>\<open>lu.dtype.char in 'fF'\<close> is membership of one character in a string.
\<close>

definition lu ::
  "('a::{zero,one}) backend \<Rightarrow> (nat \<Rightarrow> 'a) \<Rightarrow> (nat \<Rightarrow> 'a) \<Rightarrow> 'a world \<Rightarrow> 'a ndarray
     \<Rightarrow> bool \<Rightarrow> bool \<Rightarrow> bool \<Rightarrow> (error + 'a lu_result) \<times> 'a world" where
  "lu ext junkL junkU w a permute_l overwrite_a check_finite =
     (case private_lu_factor ext w a overwrite_a check_finite of
        (Inl e, w1) \<Rightarrow> (Inl e, w1)
      | (Inr (lu, piv), w1) \<Rightarrow>
          (let m = shape lu ! 0;
               n = shape lu ! 1;
               k = min m n
           in case split_lu (tasks (m * n)) (buf lu) m n junkL junkU of
                None \<Rightarrow> (Inl KernelFault, w1)
              | Some (L, U) \<Rightarrow>
                  (let U_arr = \<lparr>shape = [k, n], dtype = dtype lu, f_order = False, buf = U\<rparr>
                   in if permute_l
                      then (case launch (laswp_task (int m) (int k) (int k) (ints w1 ! piv))
                                   (tasks k) L of
                              None \<Rightarrow> (Inl KernelFault, w1)
                            | Some PL \<Rightarrow>
                                (Inr (PL_U \<lparr>shape = [m, k], dtype = dtype lu,
                                            f_order = False, buf = PL\<rparr> U_arr), w1))
                      else
                        (let r_dtype = (if dtype_char (dtype lu) \<in> set ''fF''
                                        then Float32 else Float64)
                         in case permutation_from_pivots (tasks m) m k (ints w1 ! piv) of
                              None \<Rightarrow> (Inl KernelFault, w1)
                            | Some P \<Rightarrow>
                                (Inr (P_L_U \<lparr>shape = [m, m], dtype = r_dtype,
                                             f_order = False, buf = P\<rparr>
                                        \<lparr>shape = [m, k], dtype = dtype lu,
                                          f_order = False, buf = L\<rparr> U_arr), w1)))))"

section \<open>Solving: \<^verbatim>\<open>lu_solve\<close>\<close>

text \<open>The chain on \<^verbatim>\<open>trans\<close> (here \<open>tr\<close>).\<close>

definition trans_op :: "int \<Rightarrow> cublas_op option" where
  "trans_op tr =
     (if tr = 0 then Some CUBLAS_OP_N
      else if tr = 1 then Some CUBLAS_OP_T
      else if tr = 2 then Some CUBLAS_OP_C
      else None)"

text \<open>
  \<^verbatim>\<open>lu_solve((lu, ipiv), b, trans, overwrite_b, check_finite)\<close>, with \<open>ipiv\<close> the
  reference of the caller's pivot array. \<^verbatim>\<open>b.shape[0]\<close> on an array without
  dimensions is an \<^verbatim>\<open>IndexError\<close>; past that check \<open>b\<close> has a dimension, and
  \<^verbatim>\<open>b.shape[1]\<close> is read only when it has more than one.
\<close>

definition lu_solve ::
  "'a backend \<Rightarrow> 'a world \<Rightarrow> 'a ndarray \<times> nat \<Rightarrow> 'a ndarray \<Rightarrow> int \<Rightarrow> bool \<Rightarrow> bool
     \<Rightarrow> (error + 'a ndarray) \<times> 'a world" where
  "lu_solve ext w lu_and_piv b tr overwrite_b check_finite =
     (let (lu, ipiv) = lu_and_piv
      in case assert_rank2 lu of
           Some e \<Rightarrow> (Inl e, w)
         | None \<Rightarrow>
        (case assert_nd_squareness lu of
           Some e \<Rightarrow> (Inl e, w)
         | None \<Rightarrow>
        (let m = shape lu ! 0
         in if shape b = [] then (Inl IndexError, w)
            else if m \<noteq> shape b ! 0 then (Inl ValueError_incompatible_dimensions, w)
            else
        (case routine_for (dtype lu) of
           None \<Rightarrow> (Inl (ValueError_unsupported_dtype (dtype lu)), w)
         | Some r \<Rightarrow>
        (case trans_op tr of
           None \<Rightarrow> (Inl ValueError_unknown_trans, w)
         | Some op \<Rightarrow>
        (let lu1 = astype ext lu (dtype lu);
             (ipiv1, w1) = alloc_ints (ints w ! ipiv) w;
             w2 = update_ints ipiv1 to_one_origin w1;
             b1 = astype ext b (dtype lu)
         in if check_finite \<and> dtype_kind (dtype lu1) = CHR ''f'' \<and> \<not> all_finite ext lu1
            then (Inl ValueError_not_finite_lu, w2)
            else if check_finite \<and> dtype_kind (dtype b1) = CHR ''f'' \<and> \<not> all_finite ext b1
            then (Inl ValueError_not_finite, w2)
            else
        (let n = (if length (shape b1) = 1 then 1 else shape b1 ! 1);
             (x, dev_info) = getrs ext r op m n (buf lu1) (ints w2 ! ipiv1) (buf b1);
             w3 = record_call (Getrs r op m n (buf lu1) (ints w2 ! ipiv1) (buf b1)) w2
         in if sint dev_info < 0
            then (Inl (ValueError_illegal_value_getrs (sint (- dev_info))), w3)
            else (Inr (b1\<lparr>buf := x\<rparr>), w3))))))))"

text \<open>
  The checks of \<^verbatim>\<open>lu_solve\<close> that come before the chain on \<^verbatim>\<open>trans\<close>: rank,
  squareness, the leading dimension of the right-hand side and the dtype.
\<close>

definition solve_ready :: "'a ndarray \<Rightarrow> 'a ndarray \<Rightarrow> bool" where
  "solve_ready fac b \<longleftrightarrow>
     assert_rank2 fac = None \<and> assert_nd_squareness fac = None
     \<and> shape b \<noteq> [] \<and> shape fac ! 0 = shape b ! 0 \<and> routine_for (dtype fac) \<noteq> None"

text \<open>An array is well formed when its buffer has one element for each index.\<close>

definition wf_array :: "'a ndarray \<Rightarrow> bool" where
  "wf_array a \<longleftrightarrow> length (buf a) = prod_list (shape a)"

section \<open>Elements for concrete runs\<close>

text \<open>
  Modelled from the spec: \<^verbatim>\<open>cupy.isfinite\<close> is not among the source files. A real
  value is finite, an infinity or NaN, and is non-finite in the last three cases; an
  element is a complex value, finite when both parts are, and a real element has the
  imaginary part zero. Finite values are named by integers, which is all a concrete
  run needs.
\<close>

datatype fp = Finite int | PosInf | NegInf | NaN

fun fp_isfinite :: "fp \<Rightarrow> bool" where
  "fp_isfinite (Finite x) = True"
| "fp_isfinite PosInf = False"
| "fp_isfinite NegInf = False"
| "fp_isfinite NaN = False"

datatype cplx = Cplx fp fp

fun cplx_isfinite :: "cplx \<Rightarrow> bool" where
  "cplx_isfinite (Cplx re im) = (fp_isfinite re \<and> fp_isfinite im)"

instantiation cplx :: zero_neq_one
begin

definition zero_cplx :: cplx where
  "zero_cplx = Cplx (Finite 0) (Finite 0)"

definition one_cplx :: cplx where
  "one_cplx = Cplx (Finite 1) (Finite 0)"

instance
  by standard (simp add: zero_cplx_def one_cplx_def)

end

text \<open>
  A backend for concrete runs: the primitives leave their buffers as they are, the
  factorization reports the pivots \<open>1, 2, \<dots>\<close> (no row is exchanged) and both report
  status \<open>0\<close>.
\<close>

definition demo_backend :: "cplx backend" where
  "demo_backend =
     \<lparr>isfinite = cplx_isfinite, cast = (\<lambda>_ _ x. x),
      getrf = (\<lambda>_ m n xs. (xs, map (\<lambda>i. of_nat (Suc i)) [0..<min m n], 0)),
      getrs = (\<lambda>_ _ _ _ _ _ xs. (xs, 0))\<rparr>"

definition demo_world :: "cplx world" where
  "demo_world = \<lparr>ints = [[0, 1]], warnings = [], calls = []\<rparr>"

definition demo_factor :: "cplx ndarray" where
  "demo_factor =
     \<lparr>shape = [2, 2], dtype = Float64, f_order = True,
      buf = [Cplx (Finite 1) (Finite 0), Cplx (Finite 0) (Finite 0),
             Cplx (Finite 0) (Finite 0), Cplx (Finite 1) (Finite 0)]\<rparr>"

definition demo_rhs :: "cplx ndarray" where
  "demo_rhs =
     \<lparr>shape = [2], dtype = Float64, f_order = True,
      buf = [Cplx (Finite 3) (Finite 0), Cplx (Finite 4) (Finite 0)]\<rparr>"

text \<open>A one by one single-precision complex matrix, finite and with a NaN.\<close>

definition demo_complex :: "cplx ndarray" where
  "demo_complex =
     \<lparr>shape = [1, 1], dtype = Complex64, f_order = True, buf = [Cplx (Finite 2) (Finite 0)]\<rparr>"

definition demo_complex_nan :: "cplx ndarray" where
  "demo_complex_nan =
     \<lparr>shape = [1, 1], dtype = Complex64, f_order = True, buf = [Cplx NaN (Finite 0)]\<rparr>"

text \<open>
  The singular matrix of the docstring of \<^verbatim>\<open>lu_factor\<close>, single precision and
  column-major, with a primitive that reports status \<open>2\<close> and leaves NaN in the second
  row, and one that reports status \<open>- 4\<close>.
\<close>

definition demo_singular :: "cplx ndarray" where
  "demo_singular =
     \<lparr>shape = [2, 2], dtype = Float32, f_order = True,
      buf = [Cplx (Finite 0) (Finite 0), Cplx (Finite 0) (Finite 0),
             Cplx (Finite 1) (Finite 0), Cplx (Finite 0) (Finite 0)]\<rparr>"

definition demo_singular_out :: "cplx list" where
  "demo_singular_out =
     [Cplx (Finite 0) (Finite 0), Cplx NaN (Finite 0),
      Cplx (Finite 1) (Finite 0), Cplx NaN (Finite 0)]"

definition singular_backend :: "cplx backend" where
  "singular_backend = demo_backend\<lparr>getrf := (\<lambda>_ _ _ xs. (demo_singular_out, [1, 2], 2))\<rparr>"

definition rejecting_backend :: "cplx backend" where
  "rejecting_backend = demo_backend\<lparr>getrf := (\<lambda>_ _ _ xs. (xs, [1, 2], - 4))\<rparr>"

text \<open>A one by one double-precision real matrix holding NaN.\<close>

definition demo_real_nan :: "cplx ndarray" where
  "demo_real_nan =
     \<lparr>shape = [1, 1], dtype = Float64, f_order = True, buf = [Cplx NaN (Finite 0)]\<rparr>"

text \<open>
  The element of the right-hand side that \<^verbatim>\<open>lu_solve\<close> works with: the caller's,
  converted to the dtype of the factor where the dtypes differ.
\<close>

definition converted :: "'a backend \<Rightarrow> dtype \<Rightarrow> dtype \<Rightarrow> 'a \<Rightarrow> 'a" where
  "converted ext d d' x = (if d = d' then x else cast ext d d' x)"

text \<open>
  All the checks of \<^verbatim>\<open>lu_solve\<close> that come before the primitive, the mode apart: the
  ones above and the two finiteness checks.
\<close>

definition solve_checks_pass :: "'a backend \<Rightarrow> 'a ndarray \<Rightarrow> 'a ndarray \<Rightarrow> bool \<Rightarrow> bool" where
  "solve_checks_pass ext fac b check_finite \<longleftrightarrow>
     solve_ready fac b
     \<and> \<not> (check_finite \<and> dtype_kind (dtype fac) = CHR ''f''
           \<and> (\<not> all_finite ext (astype ext fac (dtype fac))
                \<or> \<not> all_finite ext (astype ext b (dtype fac))))"

section \<open>Facts about C integers and buffers\<close>

lemma c_int_id: "- (2 ^ 31) \<le> x \<Longrightarrow> x < 2 ^ 31 \<Longrightarrow> c_int x = x"
  unfolding c_int_def by (rule signed_take_bit_int_eq_self)

lemma c_int_nat: "x < 2 ^ 31 \<Longrightarrow> c_int (int x) = int x"
  by (rule c_int_id) simp_all

lemma c_int_mod: "c_int x = (x + 2 ^ 31) mod 2 ^ 32 - 2 ^ 31"
  by (simp add: c_int_def signed_take_bit_eq_take_bit_shift take_bit_eq_mod)

lemma rd_negative: "a < 0 \<Longrightarrow> rd xs a = None"
  by (simp add: rd_def)

text \<open>A launch whose schedule holds a task that faults in every state faults.\<close>

lemma launch_fault:
  assumes "i \<in> set sched" "\<And>s. body i s = None"
  shows "launch body sched s = None"
  using assms(1)
proof (induction sched arbitrary: s)
  case Nil
  then show ?case by simp
next
  case (Cons j sched)
  show ?case
  proof (cases "body j s")
    case None
    then show ?thesis by simp
  next
    case (Some s')
    then have "j \<noteq> i" using assms(2) [of s] by auto
    then have "i \<in> set sched" using Cons.prems by simp
    then show ?thesis using Cons.IH Some by simp
  qed
qed

lemma rd_nat: "a < length xs \<Longrightarrow> rd xs (int a) = Some (xs ! a)"
  by (simp add: rd_def)

lemma wr_nat: "a < length xs \<Longrightarrow> wr xs (int a) v = Some (xs[a := v])"
  by (simp add: wr_def)

lemma grid_bounds:
  fixes j m n :: nat
  assumes "j < m * n"
  shows "j div n < m" "j mod n < n" "0 < n" "j div n + (j mod n) * m < m * n"
proof -
  show n: "0 < n" using assms by (cases n) auto
  show r: "j div n < m" using assms by (simp add: less_mult_imp_div_less)
  show c: "j mod n < n" using n by simp
  have "(j mod n) * m \<le> (n - 1) * m" using c by (intro mult_le_mono1) arith
  then have "j div n + (j mod n) * m < m + (n - 1) * m" using r by arith
  also have "\<dots> = m * n" using n by (cases n) (auto simp: algebra_simps)
  finally show "j div n + (j mod n) * m < m * n" .
qed

lemma cell_bound:
  fixes r c w h :: nat
  assumes "r < h" "c < w"
  shows "c + r * w < h * w"
proof -
  have "c + r * w < w + r * w" using assms by simp
  also have "\<dots> = (Suc r) * w" by simp
  also have "\<dots> \<le> h * w" using assms by (intro mult_le_mono1) arith
  finally show ?thesis .
qed


section \<open>The extraction kernel\<close>

lemma split_lu_row_nat:
  assumes "j < m * n" "m * n < 2 ^ 31"
  shows "split_lu_row (int n) (int j) = int (j div n)"
proof -
  have "j div n \<le> j" by simp
  then have "j div n < 2 ^ 31" using assms by linarith
  then show ?thesis
    by (simp add: split_lu_row_def zdiv_int [symmetric] c_int_nat)
qed

lemma split_lu_col_nat:
  assumes "j < m * n" "m * n < 2 ^ 31"
  shows "split_lu_col (int n) (int j) = int (j mod n)"
proof -
  have "j mod n \<le> j" by simp
  then have "j mod n < 2 ^ 31" using assms by linarith
  then show ?thesis
    by (simp add: split_lu_col_def zmod_int [symmetric] c_int_nat)
qed

lemma split_lu_src_nat:
  assumes "j < m * n" "m * n < 2 ^ 31"
  shows "split_lu_src (int m) (int n) (int j) = int (j div n + (j mod n) * m)"
proof -
  have b: "j div n + (j mod n) * m < m * n" using assms(1) by (rule grid_bounds)
  then have "(j mod n) * m < 2 ^ 31" "j div n + (j mod n) * m < 2 ^ 31"
    using assms(2) by linarith+
  then have "c_int (int ((j mod n) * m)) = int ((j mod n) * m)"
    "c_int (int (j div n + (j mod n) * m)) = int (j div n + (j mod n) * m)"
    by (simp_all only: c_int_nat)
  then show ?thesis
    by (simp add: split_lu_src_def split_lu_row_nat [OF assms] split_lu_col_nat [OF assms])
qed

lemma split_lu_L_addr_nat:
  assumes "j < m * n" "m * n < 2 ^ 31" "k \<le> n"
  shows "split_lu_L_addr (int n) (int k) (int j) =
         (if j mod n < k then Some (int (j mod n + (j div n) * k)) else None)"
proof (cases "j mod n < k")
  case False
  then show ?thesis
    by (simp add: split_lu_L_addr_def split_lu_row_nat [OF assms(1,2)] split_lu_col_nat [OF assms(1,2)])
next
  case True
  have "j div n < m" using assms(1) by (rule grid_bounds)
  then have "j mod n + (j div n) * k < m * k" using True by (rule cell_bound)
  also have "\<dots> \<le> m * n" using assms(3) by simp
  finally have b: "j mod n + (j div n) * k < 2 ^ 31" using assms(2) by linarith
  then have "(j div n) * k < 2 ^ 31" by linarith
  then have "c_int (int ((j div n) * k)) = int ((j div n) * k)"
    "c_int (int (j mod n + (j div n) * k)) = int (j mod n + (j div n) * k)"
    using b by (simp_all only: c_int_nat)
  then show ?thesis using True
    by (simp add: split_lu_L_addr_def split_lu_row_nat [OF assms(1,2)] split_lu_col_nat [OF assms(1,2)])
qed

lemma split_lu_U_addr_nat:
  assumes "j < m * n" "m * n < 2 ^ 31"
  shows "split_lu_U_addr (int n) (int k) (int j) =
         (if j div n < k then Some (int j) else None)"
proof -
  have e: "int (j mod n) + int (j div n) * int n = int j"
    by (metis add.commute div_mult_mod_eq of_nat_add of_nat_mult)
  have "(j div n) * n \<le> j" by simp
  then have "(j div n) * n < 2 ^ 31" "j < 2 ^ 31" using assms by linarith+
  then have "c_int (int ((j div n) * n)) = int ((j div n) * n)" "c_int (int j) = int j"
    by (simp_all only: c_int_nat)
  then have "c_int (int (j mod n) + c_int (int (j div n) * int n)) = int j"
    using e by simp
  then show ?thesis
    by (simp add: split_lu_U_addr_def split_lu_row_nat [OF assms(1,2)] split_lu_col_nat [OF assms(1,2)])
qed


lemma cell_inj:
  fixes c r c' r' w :: nat
  assumes "c < w" "c' < w" "c + r * w = c' + r' * w"
  shows "c = c' \<and> r = r'"
proof -
  have "(c + r * w) mod w = (c' + r' * w) mod w" "(c + r * w) div w = (c' + r' * w) div w"
    by (simp_all only: assms(3))
  then show ?thesis using assms(1,2) by simp
qed

lemma split_lu_vals_nat:
  "split_lu_vals (int row) (int col) (LU ! (row + col * m)) =
     (L_expected LU m row col, U_expected LU m row col)"
  by (simp add: split_lu_vals_def L_expected_def U_expected_def)

lemma split_lu_task_nat:
  assumes "j < m * n" "m * n < 2 ^ 31" "k \<le> m" "k \<le> n"
    and "length LU = m * n" "length L = m * k" "length U = k * n"
  shows "split_lu_task LU (int m) (int n) (int k) (int j) (L, U) =
         Some (if j mod n < k
               then L[j mod n + (j div n) * k := L_expected LU m (j div n) (j mod n)] else L,
               if j div n < k
               then U[j := U_expected LU m (j div n) (j mod n)] else U)"
proof -
  have src: "j div n + (j mod n) * m < length LU"
    using assms(1,5) by (simp add: grid_bounds)
  have la: "j mod n < k \<Longrightarrow> j mod n + (j div n) * k < length L"
    using assms(1,6) by (simp add: grid_bounds cell_bound)
  have ua: "j < length U" if "j div n < k"
  proof -
    have "j mod n < n" using assms(1) by (rule grid_bounds)
    with that have "j mod n + (j div n) * n < k * n" by (rule cell_bound)
    then show ?thesis using assms(7) by simp
  qed
  have r: "rd LU (split_lu_src (int m) (int n) (int j)) = Some (LU ! (j div n + (j mod n) * m))"
    by (simp only: split_lu_src_nat [OF assms(1,2)] rd_nat [OF src])
  have v: "split_lu_vals (split_lu_row (int n) (int j)) (split_lu_col (int n) (int j))
             (LU ! (j div n + (j mod n) * m)) =
           (L_expected LU m (j div n) (j mod n), U_expected LU m (j div n) (j mod n))"
    by (simp only: split_lu_row_nat [OF assms(1,2)] split_lu_col_nat [OF assms(1,2)]
        split_lu_vals_nat)
  have wl: "guarded_wr L (split_lu_L_addr (int n) (int k) (int j)) x =
      Some (if j mod n < k then L[j mod n + (j div n) * k := x] else L)" for x
  proof (cases "j mod n < k")
    case True
    then show ?thesis
      by (simp only: split_lu_L_addr_nat [OF assms(1,2,4)] guarded_wr_def if_True
          option.case wr_nat [OF la [OF True]])
  next
    case False
    then show ?thesis
      by (simp only: split_lu_L_addr_nat [OF assms(1,2,4)] guarded_wr_def if_False
          option.case)
  qed
  have wu: "guarded_wr U (split_lu_U_addr (int n) (int k) (int j)) x =
      Some (if j div n < k then U[j := x] else U)" for x
  proof (cases "j div n < k")
    case True
    then show ?thesis
      by (simp only: split_lu_U_addr_nat [OF assms(1,2)] guarded_wr_def if_True
          option.case wr_nat [OF ua [OF True]])
  next
    case False
    then show ?thesis
      by (simp only: split_lu_U_addr_nat [OF assms(1,2)] guarded_wr_def if_False
          option.case)
  qed
  show ?thesis
    unfolding split_lu_task_def
    by (simp only: r v wl wu option.case Let_def prod.case fst_conv snd_conv)
qed

lemma launch_split_lu:
  assumes "\<forall>i \<in> set sched. 0 \<le> i \<and> i < int (m * n)" "m * n < 2 ^ 31" "k \<le> m" "k \<le> n"
    and "length LU = m * n" "length L = m * k" "length U = k * n"
  shows "\<exists>L' U'. launch (split_lu_task LU (int m) (int n) (int k)) sched (L, U) = Some (L', U')
           \<and> length L' = m * k \<and> length U' = k * n
           \<and> (\<forall>row < m. \<forall>col < k. L' ! (col + row * k) =
                 (if int (col + row * n) \<in> set sched then L_expected LU m row col
                  else L ! (col + row * k)))
           \<and> (\<forall>row < k. \<forall>col < n. U' ! (col + row * n) =
                 (if int (col + row * n) \<in> set sched then U_expected LU m row col
                  else U ! (col + row * n)))"
  using assms(1,6,7)
proof (induction sched arbitrary: L U)
  case Nil
  then show ?case by simp
next
  case (Cons i sched)
  have "0 \<le> i \<and> i < int (m * n)" using Cons.prems(1) by simp
  then have "i = int (nat i)" "nat i < m * n" by (simp_all add: nat_less_iff)
  then obtain j where j: "i = int j" "j < m * n" by blast
  define L1 where "L1 = (if j mod n < k
               then L[j mod n + (j div n) * k := L_expected LU m (j div n) (j mod n)] else L)"
  define U1 where "U1 = (if j div n < k
               then U[j := U_expected LU m (j div n) (j mod n)] else U)"
  have step: "split_lu_task LU (int m) (int n) (int k) i (L, U) = Some (L1, U1)"
    unfolding j(1) L1_def U1_def
    using split_lu_task_nat [OF j(2) assms(2,3,4,5) Cons.prems(2,3)] .
  have len: "length L1 = m * k" "length U1 = k * n"
    using Cons.prems(2,3) by (simp_all add: L1_def U1_def)
  have rest: "\<forall>i \<in> set sched. 0 \<le> i \<and> i < int (m * n)" using Cons.prems(1) by simp
  from Cons.IH [OF rest len] obtain L' U' where
    r: "launch (split_lu_task LU (int m) (int n) (int k)) sched (L1, U1) = Some (L', U')"
      "length L' = m * k" "length U' = k * n"
      "\<forall>row < m. \<forall>col < k. L' ! (col + row * k) =
                 (if int (col + row * n) \<in> set sched then L_expected LU m row col
                  else L1 ! (col + row * k))"
      "\<forall>row < k. \<forall>col < n. U' ! (col + row * n) =
                 (if int (col + row * n) \<in> set sched then U_expected LU m row col
                  else U1 ! (col + row * n))"
    by blast
  have n0: "0 < n" using j(2) by (rule grid_bounds)
  have Lc: "L1 ! (col + row * k) =
      (if j = col + row * n then L_expected LU m row col else L ! (col + row * k))"
    if "row < m" "col < k" for row col
  proof (cases "j = col + row * n")
    case True
    have cn: "col < n" using that(2) assms(4) by simp
    then have "j mod n = col" "j div n = row" using True by simp_all
    moreover have "col + row * k < length L"
      using that Cons.prems(2) by (simp add: cell_bound)
    ultimately show ?thesis using True that(2) by (simp add: L1_def)
  next
    case False
    have "j mod n + (j div n) * k \<noteq> col + row * k" if a: "j mod n < k"
    proof
      assume "j mod n + (j div n) * k = col + row * k"
      with a \<open>col < k\<close> have "j mod n = col \<and> j div n = row" by (rule cell_inj)
      then have "j = col + row * n" by (metis add.commute div_mult_mod_eq)
      with False show False by simp
    qed
    then show ?thesis using False by (simp add: L1_def)
  qed
  have Uc: "U1 ! (col + row * n) =
      (if j = col + row * n then U_expected LU m row col else U ! (col + row * n))"
    if "row < k" "col < n" for row col
  proof (cases "j = col + row * n")
    case True
    then have "j mod n = col" "j div n = row" using that(2) by simp_all
    moreover have "col + row * n < length U"
      using that Cons.prems(3) by (simp add: cell_bound)
    ultimately show ?thesis using True that(1) by (simp add: U1_def)
  next
    case False
    then show ?thesis by (simp add: U1_def)
  qed
  have "launch (split_lu_task LU (int m) (int n) (int k)) (i # sched) (L, U) = Some (L', U')"
    using step r(1) by simp
  moreover have "\<forall>row < m. \<forall>col < k. L' ! (col + row * k) =
                 (if int (col + row * n) \<in> set (i # sched) then L_expected LU m row col
                  else L ! (col + row * k))"
  proof (intro allI impI)
    fix row col assume rc: "row < m" "col < k"
    have "int (col + row * n) \<in> set (i # sched) \<longleftrightarrow>
          j = col + row * n \<or> int (col + row * n) \<in> set sched"
      unfolding j(1) by (auto simp del: of_nat_add of_nat_mult)
    then show "L' ! (col + row * k) =
                 (if int (col + row * n) \<in> set (i # sched) then L_expected LU m row col
                  else L ! (col + row * k))"
      using r(4) Lc [OF rc] rc by (simp del: of_nat_add of_nat_mult set_simps)
  qed
  moreover have "\<forall>row < k. \<forall>col < n. U' ! (col + row * n) =
                 (if int (col + row * n) \<in> set (i # sched) then U_expected LU m row col
                  else U ! (col + row * n))"
  proof (intro allI impI)
    fix row col assume rc: "row < k" "col < n"
    have "int (col + row * n) \<in> set (i # sched) \<longleftrightarrow>
          j = col + row * n \<or> int (col + row * n) \<in> set sched"
      unfolding j(1) by (auto simp del: of_nat_add of_nat_mult)
    then show "U' ! (col + row * n) =
                 (if int (col + row * n) \<in> set (i # sched) then U_expected LU m row col
                  else U ! (col + row * n))"
      using r(5) Uc [OF rc] rc by (simp del: of_nat_add of_nat_mult set_simps)
  qed
  ultimately show ?case using r(2,3) by blast
qed


lemma set_tasks: "set (tasks n) = {i. 0 \<le> i \<and> i < int n}"
proof -
  have "set (tasks n) = int ` {0..<n}" by (simp add: tasks_def)
  also have "\<dots> = {i. 0 \<le> i \<and> i < int n}"
  proof (intro set_eqI iffI)
    fix i assume "i \<in> {i. 0 \<le> i \<and> i < int n}"
    then have "i = int (nat i)" "nat i \<in> {0..<n}" by (simp_all add: nat_less_iff)
    then show "i \<in> int ` {0..<n}" by (rule image_eqI)
  qed auto
  finally show ?thesis .
qed

text \<open>
  Claim C1, as the code has it. The kernel computes its indices in 32-bit \<^verbatim>\<open>int\<close>, so
  the claim holds for the buffers whose \<open>m * n\<close> is below \<open>2 ^ 31\<close>. For a packed
  buffer of shape \<open>(m, n)\<close> (column-major) with \<open>m * n < 2 ^ 31\<close> and \<open>k = min m n\<close>,
  the extraction run over all \<open>m * n\<close> tasks, in any order, returns \<open>L\<close> with
  \<open>m * k\<close> cells and \<open>U\<close> with \<open>k * n\<close> cells (both row-major) such that at every grid
  position \<open>(row, col)\<close>: below the diagonal \<open>L[row, col]\<close> is the packed value and
  \<open>U[row, col]\<close>, where \<open>U\<close> has that row, is \<open>0\<close>; on the diagonal \<open>L[row, col]\<close> is
  \<open>1\<close> and \<open>U[row, col]\<close> is the packed value; above the diagonal \<open>L[row, col]\<close>,
  where \<open>L\<close> has that column, is \<open>0\<close> and \<open>U[row, col]\<close> is the packed value. The
  result does not depend on what the uninitialised outputs held.
\<close>

theorem split_lu_factors:
  fixes LU :: "('a::{zero,one}) list"
  assumes "m * n < 2 ^ 31" and "length LU = m * n" and "set sched = set (tasks (m * n))"
  shows "\<exists>L U. split_lu sched LU m n junkL junkU = Some (L, U)
           \<and> length L = m * min m n \<and> length U = min m n * n
           \<and> (\<forall>row < m. \<forall>col < n.
                 (row > col \<longrightarrow> L ! (col + row * min m n) = LU ! (row + col * m)
                                \<and> (row < min m n \<longrightarrow> U ! (col + row * n) = 0))
               \<and> (row = col \<longrightarrow> L ! (col + row * min m n) = 1
                                \<and> U ! (col + row * n) = LU ! (row + col * m))
               \<and> (row < col \<longrightarrow> (col < min m n \<longrightarrow> L ! (col + row * min m n) = 0)
                                \<and> U ! (col + row * n) = LU ! (row + col * m)))"
proof -
  define k where "k = min m n"
  have k: "k \<le> m" "k \<le> n" by (simp_all add: k_def)
  have s: "\<forall>i \<in> set sched. 0 \<le> i \<and> i < int (m * n)"
    using assms(3) by (simp only: set_tasks) blast
  have lens: "length (cupy_empty (m * k) junkL) = m * k" "length (cupy_empty (k * n) junkU) = k * n"
    by (simp_all add: cupy_empty_def)
  from launch_split_lu [OF s assms(1) k assms(2) lens] obtain L U where
    r: "launch (split_lu_task LU (int m) (int n) (int k)) sched
          (cupy_empty (m * k) junkL, cupy_empty (k * n) junkU) = Some (L, U)"
      "length L = m * k" "length U = k * n"
      "\<forall>row < m. \<forall>col < k. L ! (col + row * k) =
                 (if int (col + row * n) \<in> set sched then L_expected LU m row col
                  else cupy_empty (m * k) junkL ! (col + row * k))"
      "\<forall>row < k. \<forall>col < n. U ! (col + row * n) =
                 (if int (col + row * n) \<in> set sched then U_expected LU m row col
                  else cupy_empty (k * n) junkU ! (col + row * n))"
    by blast
  have run: "split_lu sched LU m n junkL junkU = Some (L, U)"
    using r(1) by (simp add: split_lu_def k_def Let_def)
  have cover: "int (col + row * n) \<in> set sched" if "row < m" "col < n" for row col
  proof -
    have "col + row * n < m * n" using that by (rule cell_bound)
    then show ?thesis unfolding assms(3) set_tasks by (simp del: of_nat_add of_nat_mult)
  qed
  have Lc: "L ! (col + row * k) = L_expected LU m row col" if "row < m" "col < k" for row col
    using r(4) that cover [of row col] k(2) by simp
  have Uc: "U ! (col + row * n) = U_expected LU m row col" if "row < k" "col < n" for row col
    using r(5) that cover [of row col] k(1) by simp
  have cells: "(row > col \<longrightarrow> L ! (col + row * k) = LU ! (row + col * m)
                                \<and> (row < k \<longrightarrow> U ! (col + row * n) = 0))
               \<and> (row = col \<longrightarrow> L ! (col + row * k) = 1
                                \<and> U ! (col + row * n) = LU ! (row + col * m))
               \<and> (row < col \<longrightarrow> (col < k \<longrightarrow> L ! (col + row * k) = 0)
                                \<and> U ! (col + row * n) = LU ! (row + col * m))"
    if rc: "row < m" "col < n" for row col
  proof (intro conjI impI)
    assume a: "col < row"
    then have "col < k" using rc by (simp add: k_def)
    then show "L ! (col + row * k) = LU ! (row + col * m)"
      using Lc [OF rc(1)] a by (simp add: L_expected_def)
    show "U ! (col + row * n) = 0" if "row < k"
      using Uc [OF that rc(2)] a by (simp add: U_expected_def)
  next
    assume a: "row = col"
    then have b: "col < k" "row < k" using rc by (simp_all add: k_def)
    show "L ! (col + row * k) = 1"
      using Lc [OF rc(1) b(1)] a by (simp add: L_expected_def)
    show "U ! (col + row * n) = LU ! (row + col * m)"
      using Uc [OF b(2) rc(2)] a by (simp add: U_expected_def)
  next
    assume a: "row < col"
    then have b: "row < k" using rc by (simp add: k_def)
    show "L ! (col + row * k) = 0" if "col < k"
      using Lc [OF rc(1) that] a by (simp add: L_expected_def)
    show "U ! (col + row * n) = LU ! (row + col * m)"
      using Uc [OF b rc(2)] a by (simp add: U_expected_def)
  qed
  show ?thesis
    using run r(2,3) cells unfolding k_def by blast
qed

theorem split_lu_factors_witness:
  "\<exists>L U. split_lu (tasks 6) [11, 21, 12, 22, 13, 23 :: int] 2 3 (\<lambda>_. 7) (\<lambda>_. 9) = Some (L, U)
     \<and> length L = 4 \<and> length U = 6
     \<and> L ! 0 = 1 \<and> L ! 1 = 0 \<and> L ! 2 = 21 \<and> L ! 3 = 1
     \<and> U ! 0 = 11 \<and> U ! 1 = 12 \<and> U ! 2 = 13 \<and> U ! 3 = 0 \<and> U ! 4 = 22 \<and> U ! 5 = 23"
proof -
  have h: "(2::nat) * 3 < 2 ^ 31" "length [11, 21, 12, 22, 13, 23 :: int] = 2 * 3"
    "set (tasks 6) = set (tasks (2 * 3))" by simp_all
  from split_lu_factors [OF h, of "\<lambda>_. 7" "\<lambda>_. 9"] obtain L U where
    r: "split_lu (tasks 6) [11, 21, 12, 22, 13, 23 :: int] 2 3 (\<lambda>_. 7) (\<lambda>_. 9) = Some (L, U)"
      "length L = 2 * min 2 3" "length U = min 2 3 * 3"
      and c: "\<forall>row < 2. \<forall>col < 3.
                 (row > col \<longrightarrow> L ! (col + row * min 2 3) = [11, 21, 12, 22, 13, 23] ! (row + col * 2)
                                \<and> (row < min 2 3 \<longrightarrow> U ! (col + row * 3) = 0))
               \<and> (row = col \<longrightarrow> L ! (col + row * min 2 3) = 1
                                \<and> U ! (col + row * 3) = [11, 21, 12, 22, 13, 23] ! (row + col * 2))
               \<and> (row < col \<longrightarrow> (col < min 2 3 \<longrightarrow> L ! (col + row * min 2 3) = 0)
                                \<and> U ! (col + row * 3) = [11, 21, 12, 22, 13, 23] ! (row + col * 2))"
    by blast
  have "L ! 0 = 1" "U ! 0 = 11" using c [rule_format, of 0 0] by simp_all
  moreover have "L ! 1 = 0" "U ! 1 = 12" using c [rule_format, of 0 1] by simp_all
  moreover have "U ! 2 = 13" using c [rule_format, of 0 2] by simp
  moreover have "L ! 2 = 21" "U ! 3 = 0" using c [rule_format, of 1 0] by (simp_all add: eval_nat_numeral)
  moreover have "L ! 3 = 1" "U ! 4 = 22" using c [rule_format, of 1 1] by (simp_all add: eval_nat_numeral)
  moreover have "U ! 5 = 23" using c [rule_format, of 1 2] by simp
  ultimately show ?thesis using r by simp
qed

text \<open>
  Without the bound the claim fails: for a packed buffer of shape \<open>(65536, 65536)\<close> the
  task \<open>40000\<close> has row \<open>0\<close> and column \<open>40000\<close>, the product \<^verbatim>\<open>col * M\<close> overflows
  \<^verbatim>\<open>int\<close>, the index of the read is negative, and the extraction produces no factors.
\<close>

theorem split_lu_overflow_counterexample:
  "split_lu (tasks (65536 * 65536)) (replicate (65536 * 65536) 0) 65536 65536 id id
   = (None :: (nat list \<times> nat list) option)"
proof -
  have src: "split_lu_src 65536 65536 40000 = - 1673527296"
    by (simp add: split_lu_src_def split_lu_row_def split_lu_col_def c_int_mod)
  have fault: "split_lu_task LU 65536 65536 65536 40000 s = None"
    for LU :: "nat list" and s
    by (simp add: split_lu_task_def src rd_negative)
  have mem: "40000 \<in> set (tasks 4294967296)" by (simp add: set_tasks)
  have l: "launch (split_lu_task LU 65536 65536 65536) (tasks 4294967296) s = None"
    for LU :: "nat list" and s
    using mem fault by (rule launch_fault)
  show ?thesis
    by (simp add: split_lu_def Let_def l)
qed

lemma task_index_nat:
  assumes "0 \<le> i" "i < int (m * n)"
  obtains j where "i = int j" "j < m * n"
proof -
  have "i = int (nat i)" "nat i < m * n" using assms by (simp_all add: nat_less_iff)
  then show ?thesis using that by blast
qed

lemma div_mod_eq_imp_eq:
  fixes x y n :: nat
  assumes "x mod n = y mod n" "x div n = y div n"
  shows "x = y"
  by (metis assms div_mult_mod_eq)

text \<open>
  Claim C6, as the code has it. The addresses are computed in 32-bit \<^verbatim>\<open>int\<close>, so the
  claim holds for the grids whose \<open>m * n\<close> is below \<open>2 ^ 31\<close>. Over such a grid of
  \<open>m * n\<close> tasks of the extraction kernel, a task has an address in \<open>L\<close> exactly when
  its column is below \<open>k\<close> and an address in \<open>U\<close> exactly when its row is below \<open>k\<close>;
  the map from tasks to addresses in \<open>L\<close> is injective on the tasks that write \<open>L\<close>,
  and likewise for \<open>U\<close>; and a task leaves every cell of \<open>L\<close> and of \<open>U\<close> other than
  its one address as it was.
\<close>

theorem split_lu_write_partition:
  fixes LU L U :: "('a::{zero,one}) list"
  assumes "m * n < 2 ^ 31" and "k = min m n"
    and "length LU = m * n" and "length L = m * k" and "length U = k * n"
  defines "grid \<equiv> {i. 0 \<le> i \<and> i < int (m * n)}"
  shows "(\<forall>i \<in> grid. (split_lu_L_addr (int n) (int k) i \<noteq> None
                        \<longleftrightarrow> split_lu_col (int n) i < int k)
                    \<and> (split_lu_U_addr (int n) (int k) i \<noteq> None
                        \<longleftrightarrow> split_lu_row (int n) i < int k))
       \<and> inj_on (split_lu_L_addr (int n) (int k)) {i \<in> grid. split_lu_col (int n) i < int k}
       \<and> inj_on (split_lu_U_addr (int n) (int k)) {i \<in> grid. split_lu_row (int n) i < int k}
       \<and> (\<forall>i \<in> grid. \<exists>L' U'.
             split_lu_task LU (int m) (int n) (int k) i (L, U) = Some (L', U')
             \<and> (\<forall>b < length L. split_lu_L_addr (int n) (int k) i \<noteq> Some (int b)
                    \<longrightarrow> L' ! b = L ! b)
             \<and> (\<forall>b < length U. split_lu_U_addr (int n) (int k) i \<noteq> Some (int b)
                    \<longrightarrow> U' ! b = U ! b))"
proof (intro conjI ballI)
  have k: "k \<le> m" "k \<le> n" using assms(2) by simp_all
  show "split_lu_L_addr (int n) (int k) i \<noteq> None \<longleftrightarrow> split_lu_col (int n) i < int k" for i
    by (simp add: split_lu_L_addr_def Let_def)
  show "split_lu_U_addr (int n) (int k) i \<noteq> None \<longleftrightarrow> split_lu_row (int n) i < int k" for i
    by (simp add: split_lu_U_addr_def Let_def)
  show "inj_on (split_lu_L_addr (int n) (int k)) {i \<in> grid. split_lu_col (int n) i < int k}"
  proof (rule inj_onI)
    fix i i'
    assume a: "i \<in> {i \<in> grid. split_lu_col (int n) i < int k}"
      "i' \<in> {i \<in> grid. split_lu_col (int n) i < int k}"
      "split_lu_L_addr (int n) (int k) i = split_lu_L_addr (int n) (int k) i'"
    from a(1) obtain x where x: "i = int x" "x < m * n"
      unfolding grid_def by (auto elim: task_index_nat)
    from a(2) obtain y where y: "i' = int y" "y < m * n"
      unfolding grid_def by (auto elim: task_index_nat)
    have cx: "x mod n < k" using a(1) x by (simp add: split_lu_col_nat [OF x(2) assms(1)])
    have cy: "y mod n < k" using a(2) y by (simp add: split_lu_col_nat [OF y(2) assms(1)])
    have "int (x mod n + (x div n) * k) = int (y mod n + (y div n) * k)"
      using a(3) cx cy unfolding x(1) y(1)
      by (simp only: split_lu_L_addr_nat [OF x(2) assms(1) k(2)]
          split_lu_L_addr_nat [OF y(2) assms(1) k(2)] if_True option.inject)
    then have "x mod n + (x div n) * k = y mod n + (y div n) * k" by (simp only: of_nat_eq_iff)
    with cx cy have "x mod n = y mod n \<and> x div n = y div n" by (rule cell_inj)
    then have "x = y" by (intro div_mod_eq_imp_eq [of x n y]) simp_all
    then show "i = i'" using x(1) y(1) by simp
  qed
  show "inj_on (split_lu_U_addr (int n) (int k)) {i \<in> grid. split_lu_row (int n) i < int k}"
  proof (rule inj_onI)
    fix i i'
    assume a: "i \<in> {i \<in> grid. split_lu_row (int n) i < int k}"
      "i' \<in> {i \<in> grid. split_lu_row (int n) i < int k}"
      "split_lu_U_addr (int n) (int k) i = split_lu_U_addr (int n) (int k) i'"
    from a(1) obtain x where x: "i = int x" "x < m * n"
      unfolding grid_def by (auto elim: task_index_nat)
    from a(2) obtain y where y: "i' = int y" "y < m * n"
      unfolding grid_def by (auto elim: task_index_nat)
    have cx: "x div n < k" using a(1) x by (simp add: split_lu_row_nat [OF x(2) assms(1)])
    have cy: "y div n < k" using a(2) y by (simp add: split_lu_row_nat [OF y(2) assms(1)])
    show "i = i'"
      using a(3) cx cy unfolding x(1) y(1)
      by (simp only: split_lu_U_addr_nat [OF x(2) assms(1)]
          split_lu_U_addr_nat [OF y(2) assms(1)] if_True option.inject)
  qed
  show "\<exists>L' U'. split_lu_task LU (int m) (int n) (int k) i (L, U) = Some (L', U')
             \<and> (\<forall>b < length L. split_lu_L_addr (int n) (int k) i \<noteq> Some (int b)
                    \<longrightarrow> L' ! b = L ! b)
             \<and> (\<forall>b < length U. split_lu_U_addr (int n) (int k) i \<noteq> Some (int b)
                    \<longrightarrow> U' ! b = U ! b)"
    if "i \<in> grid" for i
  proof -
    from that obtain x where x: "i = int x" "x < m * n"
      unfolding grid_def by (auto elim: task_index_nat)
    show ?thesis
      unfolding x(1)
      by (simp add: split_lu_task_nat [OF x(2) assms(1) k assms(3,4,5)]
          split_lu_L_addr_nat [OF x(2) assms(1) k(2)] split_lu_U_addr_nat [OF x(2) assms(1)]
          del: of_nat_add of_nat_mult)
  qed
qed

theorem split_lu_write_partition_witness:
  "inj_on (split_lu_L_addr 3 2) {i \<in> {i. 0 \<le> i \<and> i < 6}. split_lu_col 3 i < 2}
   \<and> inj_on (split_lu_U_addr 3 2) {i \<in> {i. 0 \<le> i \<and> i < 6}. split_lu_row 3 i < 2}
   \<and> split_lu_L_addr 3 2 2 = None \<and> split_lu_L_addr 3 2 4 = Some 3
   \<and> split_lu_U_addr 3 2 4 = Some 4"
proof -
  have h: "(2::nat) * 3 < 2 ^ 31" "(2::nat) = min 2 3"
    "length [11, 21, 12, 22, 13, 23 :: int] = 2 * 3"
    "length [7, 7, 7, 7 :: int] = 2 * 2" "length [9, 9, 9, 9, 9, 9 :: int] = 2 * 3"
    by simp_all
  have c: "c_int 0 = 0" "c_int 1 = 1" "c_int 2 = 2" "c_int 3 = 3" "c_int 4 = 4"
    by (simp_all add: c_int_def signed_take_bit_eq_take_bit_minus take_bit_eq_mod)
  have "split_lu_L_addr 3 2 2 = None \<and> split_lu_L_addr 3 2 4 = Some 3
   \<and> split_lu_U_addr 3 2 4 = Some 4"
    by (simp add: split_lu_L_addr_def split_lu_U_addr_def split_lu_row_def split_lu_col_def c)
  then show ?thesis
    using split_lu_write_partition [OF h] by simp
qed

text \<open>
  Without the bound the claim fails: in the grid of a \<open>65537\<close> by \<open>65537\<close> buffer the
  tasks \<open>65599\<close> (row \<open>1\<close>, column \<open>62\<close>) and \<open>4295032895\<close> (row \<open>65536\<close>, column
  \<open>63\<close>) both write \<open>L\<close>, and after the wrap of \<^verbatim>\<open>row * K\<close> both write the cell
  \<open>65599\<close>.
\<close>

theorem split_lu_addresses_counterexample:
  "split_lu_col 65537 65599 < 65537 \<and> split_lu_col 65537 4295032895 < 65537
   \<and> 4295032895 < int (65537 * 65537)
   \<and> split_lu_L_addr 65537 65537 65599 = Some 65599
   \<and> split_lu_L_addr 65537 65537 4295032895 = Some 65599"
  by (simp add: split_lu_L_addr_def split_lu_row_def split_lu_col_def c_int_mod)

section \<open>The row-permutation kernel, column by column\<close>

lemma c_int_cell:
  fixes c r w h :: nat
  assumes "r < h" "c < w" "h * w < 2 ^ 31"
  shows "c_int (int c + c_int (int r * int w)) = int (c + r * w)"
proof -
  have b: "c + r * w < h * w" using assms(1,2) by (rule cell_bound)
  then have "r * w < 2 ^ 31" "c + r * w < 2 ^ 31" using assms(3) by linarith+
  then have "c_int (int (r * w)) = int (r * w)" "c_int (int (c + r * w)) = int (c + r * w)"
    by (simp_all only: c_int_nat)
  then show ?thesis by simp
qed

lemma laswp_swap_nat:
  assumes "k < m" "j < m" "col < n" "m * n < 2 ^ 31" "length A = m * n"
  shows "laswp_swap (int n) (int col) (int k) (int j) A =
         Some (A[col + k * n := A ! (col + j * n), col + j * n := A ! (col + k * n)])"
proof -
  have ak: "c_int (int col + c_int (int k * int n)) = int (col + k * n)"
    using assms(1,3,4) by (rule c_int_cell)
  have aj: "c_int (int col + c_int (int j * int n)) = int (col + j * n)"
    using assms(2,3,4) by (rule c_int_cell)
  have bk: "col + k * n < length A" using assms(1,3,5) by (simp add: cell_bound)
  have bj: "col + j * n < length A" using assms(2,3,5) by (simp add: cell_bound)
  have bj': "col + j * n < length (A[col + k * n := A ! (col + j * n)])" using bj by simp
  show ?thesis
    unfolding laswp_swap_def
    by (simp only: ak aj Let_def rd_nat [OF bk] rd_nat [OF bj] wr_nat [OF bk]
        wr_nat [OF bj'] option.case)
qed

lemma laswp_iter_nat:
  assumes "k < length PIV" "sint (PIV ! k) < int m" "col < n" "m * n < 2 ^ 31"
    "length A = m * n"
  shows "laswp_iter (int n) PIV (int col) (int k) A =
         Some (if sint (PIV ! k) \<le> int k then A
               else A[col + k * n := A ! (col + nat (sint (PIV ! k)) * n),
                      col + nat (sint (PIV ! k)) * n := A ! (col + k * n)])"
proof (cases "sint (PIV ! k) \<le> int k")
  case True
  then show ?thesis
    by (simp add: laswp_iter_def rd_nat [OF assms(1)])
next
  case False
  define j where "j = nat (sint (PIV ! k))"
  have j: "sint (PIV ! k) = int j" "j < m" "k < m" using False assms(2) by (simp_all add: j_def)
  show ?thesis
    using False laswp_swap_nat [OF j(3,2) assms(3,4,5)]
    by (simp add: laswp_iter_def rd_nat [OF assms(1)] j(1))
qed

lemma source_row_single:
  "source_row pivots [k] r =
     (if pivots ! k \<le> int k then r
      else if r = k then nat (pivots ! k) else if r = nat (pivots ! k) then k else r)"
  by (simp add: Let_def)

lemma source_row_less:
  assumes "\<forall>k \<in> set rows. pivots ! k < int m" "r < m"
  shows "source_row pivots rows r < m"
  using assms
proof (induction rows)
  case Nil
  then show ?case by simp
next
  case (Cons k rows)
  then have s: "source_row pivots rows r < m" by simp
  have p: "pivots ! k < int m" using Cons.prems(1) by simp
  show ?case
  proof (cases "pivots ! k \<le> int k")
    case True
    then show ?thesis using s by simp
  next
    case False
    then have "nat (pivots ! k) < m" "k < m" using p by simp_all
    then show ?thesis using s by (simp add: Let_def)
  qed
qed

text \<open>The effect of one iteration on the cells of the matrix.\<close>

lemma laswp_iter_cells:
  assumes "k < length PIV" "sint (PIV ! k) < int m" "col < n" "m * n < 2 ^ 31"
    "length A = m * n"
  shows "\<exists>A'. laswp_iter (int n) PIV (int col) (int k) A = Some A' \<and> length A' = m * n
          \<and> (\<forall>r < m. \<forall>c < n. A' ! (c + r * n) =
                (if c = col then A ! (col + source_row (map sint PIV) [k] r * n)
                 else A ! (c + r * n)))"
proof (cases "sint (PIV ! k) \<le> int k")
  case True
  then show ?thesis
    using laswp_iter_nat [OF assms] assms(1,5) by (simp add: Let_def)
next
  case False
  define j where "j = nat (sint (PIV ! k))"
  have j: "sint (PIV ! k) = int j" "j < m" "k < m" "k \<noteq> j"
    using False assms(2) by (auto simp add: j_def)
  define A' where "A' = A[col + k * n := A ! (col + j * n), col + j * n := A ! (col + k * n)]"
  have run: "laswp_iter (int n) PIV (int col) (int k) A = Some A'"
    using laswp_iter_nat [OF assms] False by (simp add: A'_def j_def)
  have src: "source_row (map sint PIV) [k] r = (if r = k then j else if r = j then k else r)"
    for r using False assms(1) by (simp add: Let_def j_def)
  have cells: "A' ! (c + r * n) =
                (if c = col then A ! (col + source_row (map sint PIV) [k] r * n)
                 else A ! (c + r * n))" if rc: "r < m" "c < n" for r c
  proof -
    have b: "c + r * n < length A" "col + k * n < length A" "col + j * n < length A"
      using rc j(2,3) assms(3,5) by (simp_all add: cell_bound)
    have e: "c + r * n = col + x * n \<longleftrightarrow> c = col \<and> r = x" for x
      using cell_inj [OF rc(2) assms(3), of r x] by auto
    have e': "col + x * n = c + r * n \<longleftrightarrow> c = col \<and> r = x" for x
      using e [of x] by auto
    have ne: "col + k * n \<noteq> col + j * n"
      using cell_inj [OF assms(3) assms(3), of k j] j(4) by auto
    show ?thesis
    proof (cases "c = col")
      case True
      then show ?thesis
        unfolding A'_def src using b ne j(4)
        by (simp add: nth_list_update e e')
    next
      case False
      then show ?thesis
        unfolding A'_def using b by (simp add: nth_list_update e')
    qed
  qed
  show ?thesis using run cells assms(5) by (simp add: A'_def)
qed

lemma laswp_replay_cells:
  assumes "\<forall>k \<in> set rows. k < length PIV \<and> sint (PIV ! k) < int m"
    "col < n" "m * n < 2 ^ 31" "length A = m * n"
  shows "\<exists>A'. laswp_replay (int n) PIV (int col) (map int rows) A = Some A'
          \<and> length A' = m * n
          \<and> (\<forall>r < m. \<forall>c < n. A' ! (c + r * n) =
                (if c = col then A ! (col + source_row (map sint PIV) rows r * n)
                 else A ! (c + r * n)))"
  using assms(1,4)
proof (induction rows arbitrary: A)
  case Nil
  then show ?case by simp
next
  case (Cons k rows)
  have k: "k < length PIV" "sint (PIV ! k) < int m" using Cons.prems(1) by simp_all
  from laswp_iter_cells [OF k assms(2,3) Cons.prems(2)] obtain A1 where
    a1: "laswp_iter (int n) PIV (int col) (int k) A = Some A1" "length A1 = m * n"
      "\<forall>r < m. \<forall>c < n. A1 ! (c + r * n) =
                (if c = col then A ! (col + source_row (map sint PIV) [k] r * n)
                 else A ! (c + r * n))"
    by blast
  have rest: "\<forall>k \<in> set rows. k < length PIV \<and> sint (PIV ! k) < int m"
    using Cons.prems(1) by simp
  from Cons.IH [OF rest a1(2)] obtain A' where
    a': "laswp_replay (int n) PIV (int col) (map int rows) A1 = Some A'" "length A' = m * n"
      "\<forall>r < m. \<forall>c < n. A' ! (c + r * n) =
                (if c = col then A1 ! (col + source_row (map sint PIV) rows r * n)
                 else A1 ! (c + r * n))"
    by blast
  have piv: "\<forall>k \<in> set rows. map sint PIV ! k < int m" using rest by simp
  have comp: "source_row (map sint PIV) (k # rows) r =
              source_row (map sint PIV) [k] (source_row (map sint PIV) rows r)" for r
    by (simp add: Let_def)
  have "A' ! (c + r * n) =
                (if c = col then A ! (col + source_row (map sint PIV) (k # rows) r * n)
                 else A ! (c + r * n))" if rc: "r < m" "c < n" for r c
  proof (cases "c = col")
    case True
    have s: "source_row (map sint PIV) rows r < m" using piv rc(1) by (rule source_row_less)
    have "A' ! (c + r * n) = A1 ! (col + source_row (map sint PIV) rows r * n)"
      using a'(3) rc True by simp
    also have "\<dots> = A ! (col + source_row (map sint PIV) [k] (source_row (map sint PIV) rows r) * n)"
      using a1(3) s assms(2) by simp
    finally show ?thesis using True by (simp add: comp del: source_row.simps)
  next
    case False
    then show ?thesis using a'(3) a1(3) rc by simp
  qed
  then show ?case using a1(1) a'(1,2) by simp
qed

lemma laswp_loop_replay:
  fixes A :: "'a list"
  shows "laswp_loop N (int K) PIV col (int k0) A =
   laswp_replay N PIV col (map int [k0..<K]) A"
proof (induction "K - k0" arbitrary: k0 A)
  case 0
  then have "[k0..<K] = []" "\<not> int k0 < int K" by simp_all
  then show ?case by (simp add: laswp_loop.simps [of N "int K" PIV col "int k0"])
next
  case (Suc d)
  then have lt: "k0 < K" and d: "d = K - Suc k0" by simp_all
  have u: "[k0..<K] = k0 # [Suc k0..<K]" using lt by (simp add: upt_conv_Cons)
  have ih: "laswp_loop N (int K) PIV col (int k0 + 1) B =
            laswp_replay N PIV col (map int [Suc k0..<K]) B" for B :: "'a list"
    using Suc.hyps(1) [OF d, of B] by (simp add: add.commute)
  show ?case
    by (subst laswp_loop.simps) (simp add: lt u ih split: option.split)
qed

lemma laswp_replay_skip:
  assumes "\<forall>k \<in> set rows. k < length PIV \<and> sint (PIV ! k) \<le> int k"
  shows "laswp_replay N PIV col (map int rows) A = Some A"
  using assms by (induction rows) (simp_all add: laswp_iter_def rd_nat)

lemma source_row_skip:
  assumes "\<forall>k \<in> set rows. pivots ! k \<le> int k"
  shows "source_row pivots rows r = r"
  using assms by (induction rows) simp_all

lemma laswp_task_cells:
  assumes "k \<le> length PIV" "\<forall>x < k. sint (PIV ! x) < int m"
    "col < n" "m * n < 2 ^ 31" "length A = m * n"
  shows "\<exists>A'. laswp_task M (int n) (int k) PIV (int col) A = Some A'
          \<and> length A' = m * n
          \<and> (\<forall>r < m. \<forall>c < n. A' ! (c + r * n) =
                (if c = col then A ! (col + source_row (map sint PIV) [0..<k] r * n)
                 else A ! (c + r * n)))"
proof (cases "m = 0")
  case True
  have "\<forall>x \<in> set [0..<k]. x < length PIV \<and> sint (PIV ! x) \<le> int x"
    using assms(1,2) True by force
  then have "laswp_replay (int n) PIV (c_int (int col)) (map int [0..<k]) A = Some A"
    by (rule laswp_replay_skip)
  then show ?thesis
    using True assms(5) by (simp add: laswp_task_def laswp_loop_replay [of _ k _ _ 0, simplified])
next
  case False
  have "col < m * n" using assms(3) False by (cases m) simp_all
  then have "col < 2 ^ 31" using assms(4) by linarith
  then have c: "c_int (int col) = int col" by (rule c_int_nat)
  have rows: "\<forall>x \<in> set [0..<k]. x < length PIV \<and> sint (PIV ! x) < int m"
    using assms(1,2) by simp
  show ?thesis
    using laswp_replay_cells [OF rows assms(3,4,5)]
    by (simp add: laswp_task_def c laswp_loop_replay [of _ k _ _ 0, simplified])
qed

lemma launch_laswp:
  assumes "distinct sched" "\<forall>i \<in> set sched. 0 \<le> i \<and> i < int n"
    and "k \<le> length PIV" "\<forall>x < k. sint (PIV ! x) < int m"
    and "m * n < 2 ^ 31" "length A = m * n"
  shows "\<exists>A'. launch (laswp_task M (int n) (int k) PIV) sched A = Some A'
          \<and> length A' = m * n
          \<and> (\<forall>r < m. \<forall>c < n. A' ! (c + r * n) =
                (if int c \<in> set sched then A ! (c + source_row (map sint PIV) [0..<k] r * n)
                 else A ! (c + r * n)))"
  using assms(1,2,6)
proof (induction sched arbitrary: A)
  case Nil
  then show ?case by simp
next
  case (Cons i sched)
  have "0 \<le> i \<and> i < int n" using Cons.prems(2) by simp
  then have "i = int (nat i)" "nat i < n" by (simp_all add: nat_less_iff)
  then obtain col where col: "i = int col" "col < n" by blast
  from laswp_task_cells [OF assms(3,4) col(2) assms(5) Cons.prems(3)] obtain A1 where
    a1: "laswp_task M (int n) (int k) PIV (int col) A = Some A1" "length A1 = m * n"
      "\<forall>r < m. \<forall>c < n. A1 ! (c + r * n) =
                (if c = col then A ! (col + source_row (map sint PIV) [0..<k] r * n)
                 else A ! (c + r * n))"
    by blast
  have d: "distinct sched" "\<forall>i \<in> set sched. 0 \<le> i \<and> i < int n" "int col \<notin> set sched"
    using Cons.prems(1,2) col(1) by simp_all
  from Cons.IH [OF d(1,2) a1(2)] obtain A' where
    a': "launch (laswp_task M (int n) (int k) PIV) sched A1 = Some A'" "length A' = m * n"
      "\<forall>r < m. \<forall>c < n. A' ! (c + r * n) =
                (if int c \<in> set sched then A1 ! (c + source_row (map sint PIV) [0..<k] r * n)
                 else A1 ! (c + r * n))"
    by blast
  have piv: "\<forall>x \<in> set [0..<k]. map sint PIV ! x < int m" using assms(3,4) by simp
  have "A' ! (c + r * n) =
          (if int c \<in> set (i # sched) then A ! (c + source_row (map sint PIV) [0..<k] r * n)
           else A ! (c + r * n))" if rc: "r < m" "c < n" for r c
  proof -
    have s: "source_row (map sint PIV) [0..<k] r < m" using piv rc(1) by (rule source_row_less)
    show ?thesis
    proof (cases "int c \<in> set sched")
      case True
      then have "c \<noteq> col" using d(3) by auto
      then show ?thesis using a'(3) a1(3) rc s True by simp
    next
      case False
      then show ?thesis using a'(3) a1(3) rc col(1) by simp
    qed
  qed
  then show ?case using a1(1) a'(1,2) col(1) by simp
qed

lemma exchange_rows_cells:
  assumes "k < m" "j < m" "length A = m * n" "r < m" "c < n"
  shows "exchange_rows n k j A ! (c + r * n) =
         A ! (c + (if r = k then j else if r = j then k else r) * n)"
proof -
  have "c + r * n < length A" using assms(3,4,5) by (simp add: cell_bound)
  then have "exchange_rows n k j A ! (c + r * n) =
      (if (c + r * n) div n = k then A ! ((c + r * n) mod n + j * n)
       else if (c + r * n) div n = j then A ! ((c + r * n) mod n + k * n)
       else A ! (c + r * n))"
    by (simp only: exchange_rows_def nth_map length_upt minus_nat.diff_0 nth_upt add_0)
  then show ?thesis using assms(5) by simp
qed

lemma sequential_laswp_cells:
  assumes "\<forall>k \<in> set rows. pivots ! k < int m" "length A = m * n"
  shows "length (sequential_laswp n pivots rows A) = m * n
       \<and> (\<forall>r < m. \<forall>c < n. sequential_laswp n pivots rows A ! (c + r * n) =
             A ! (c + source_row pivots rows r * n))"
  using assms
proof (induction rows arbitrary: A)
  case Nil
  then show ?case by simp
next
  case (Cons k rows)
  have rest: "\<forall>k \<in> set rows. pivots ! k < int m" using Cons.prems(1) by simp
  show ?case
  proof (cases "pivots ! k \<le> int k")
    case True
    then show ?thesis using Cons.IH [OF rest Cons.prems(2)] by simp
  next
    case False
    define j where "j = nat (pivots ! k)"
    have "pivots ! k < int m" using Cons.prems(1) by simp
    then have j: "j < m" "k < m" using False by (simp_all add: j_def)
    define A1 where "A1 = exchange_rows n k j A"
    have l1: "length A1 = m * n" using Cons.prems(2) by (simp add: A1_def exchange_rows_def)
    have unf: "sequential_laswp n pivots (k # rows) A = sequential_laswp n pivots rows A1"
      using False by (simp add: A1_def j_def)
    have src: "source_row pivots (k # rows) r =
       (let s = source_row pivots rows r in if s = k then j else if s = j then k else s)" for r
      using False by (simp add: Let_def j_def)
    have "sequential_laswp n pivots rows A1 ! (c + r * n) =
             A ! (c + source_row pivots (k # rows) r * n)" if rc: "r < m" "c < n" for r c
    proof -
      have s: "source_row pivots rows r < m" using rest rc(1) by (rule source_row_less)
      have "sequential_laswp n pivots rows A1 ! (c + r * n) =
            A1 ! (c + source_row pivots rows r * n)"
        using Cons.IH [OF rest l1] rc by simp
      also have "\<dots> = A ! (c + source_row pivots (k # rows) r * n)"
        unfolding A1_def src
        by (simp only: exchange_rows_cells [OF j(2,1) Cons.prems(2) s rc(2)] Let_def)
      finally show ?thesis .
    qed
    then show ?thesis using Cons.IH [OF rest l1] unfolding unf by simp
  qed
qed

lemma grid_cells_eqI:
  assumes "length A = m * n" "length B = m * n"
    "\<And>r c. r < m \<Longrightarrow> c < n \<Longrightarrow> A ! (c + r * n) = B ! (c + r * n)"
  shows "A = B"
proof (rule nth_equalityI)
  show "length A = length B" using assms(1,2) by simp
  fix a assume "a < length A"
  then have a: "a < m * n" using assms(1) by simp
  then have "a div n < m" "a mod n < n" by (rule grid_bounds)+
  then have "A ! (a mod n + (a div n) * n) = B ! (a mod n + (a div n) * n)" by (rule assms(3))
  then show "A ! a = B ! a" by simp
qed

lemma c_int_small: "c_int 0 = 0" "c_int 1 = 1" "c_int 2 = 2" "c_int 3 = 3"
  by (simp_all add: c_int_def signed_take_bit_eq_take_bit_minus take_bit_eq_mod)

lemma set_tasks_cols:
  assumes "set sched = set (tasks n)"
  shows "\<forall>i \<in> set sched. 0 \<le> i \<and> i < int n" "c < n \<Longrightarrow> int c \<in> set sched"
  using assms by (simp_all add: set_tasks)

text \<open>
  On a target with \<open>50000\<close> columns the swap of rows \<open>0\<close> and \<open>49999\<close> faults:
  \<^verbatim>\<open>row_j * N\<close> overflows \<^verbatim>\<open>int\<close> and the address is negative.
\<close>

lemma laswp_launch_overflow:
  fixes A :: "'a list"
  shows "launch (laswp_task 50000 50000 1 [49999]) (tasks 50000) A = None"
proof -
  have fault: "laswp_task 50000 50000 1 [49999] 0 B = None" for B :: "'a list"
    by (simp add: laswp_task_def laswp_loop.simps [of _ 1 _ _ 0] laswp_iter_def
        laswp_swap_def rd_def c_int_mod split: option.split)
  have mem: "0 \<in> set (tasks 50000)" by (simp add: set_tasks)
  show ?thesis using mem fault by (rule launch_fault)
qed

text \<open>
  Claim C5, as the code has it. The kernel addresses the target in 32-bit \<^verbatim>\<open>int\<close> and
  reads no bounds, so the claim holds for the targets whose \<open>m * n\<close> is below \<open>2 ^ 31\<close>
  and the pivots that name rows of the target. For such a row-major matrix of shape
  \<open>(m, n)\<close> and such pivots, the kernel, which replays the whole swap list once for
  each column and in any order of the columns, returns exactly what the sequential
  algorithm returns that exchanges whole rows for \<open>row_k\<close> ascending. Columns never
  interact: the task of a column leaves every other column as it was, and what it
  leaves in its own column depends on that column alone. The order of the rows
  matters: there are pivots and a matrix for which the replay over another order of
  the rows differs from the kernel's ascending loop.
\<close>

theorem laswp_columns_sequential:
  fixes A :: "'a list"
  assumes "length A = m * n" and "m * n < 2 ^ 31"
    and "k \<le> length PIV" and "\<forall>x < k. sint (PIV ! x) < int m"
    and "distinct sched" and "set sched = set (tasks n)"
  shows "launch (laswp_task (int m) (int n) (int k) PIV) sched A =
           Some (sequential_laswp n (map sint PIV) [0..<k] A)
       \<and> (\<forall>col < n. \<exists>A'. laswp_task (int m) (int n) (int k) PIV (int col) A = Some A'
              \<and> length A' = length A
              \<and> (\<forall>r < m. \<forall>c < n. c \<noteq> col \<longrightarrow> A' ! (c + r * n) = A ! (c + r * n))
              \<and> (\<forall>B. length B = length A
                        \<and> (\<forall>r < m. B ! (col + r * n) = A ! (col + r * n))
                    \<longrightarrow> (\<exists>B'. laswp_task (int m) (int n) (int k) PIV (int col) B = Some B'
                          \<and> (\<forall>r < m. B' ! (col + r * n) = A' ! (col + r * n)))))
       \<and> (\<exists>K piv rows (B :: nat list).
              distinct rows \<and> set rows = {0..<K} \<and> length piv = K
              \<and> (\<forall>x < K. int x \<le> sint (piv ! x) \<and> sint (piv ! x) < int (length B))
              \<and> laswp_replay 1 piv 0 (map int rows) B \<noteq> laswp_loop 1 (int K) piv 0 0 B)"
proof (intro conjI allI impI)
  let ?piv = "map sint PIV"
  have piv: "\<forall>x \<in> set [0..<k]. ?piv ! x < int m" using assms(3,4) by simp
  from launch_laswp [OF assms(5) set_tasks_cols(1) [OF assms(6)] assms(3,4,2,1)]
  obtain A' where a': "launch (laswp_task (int m) (int n) (int k) PIV) sched A = Some A'"
    "length A' = m * n"
    "\<forall>r < m. \<forall>c < n. A' ! (c + r * n) =
        (if int c \<in> set sched then A ! (c + source_row ?piv [0..<k] r * n)
         else A ! (c + r * n))"
    by blast
  have s: "length (sequential_laswp n ?piv [0..<k] A) = m * n"
    "\<forall>r < m. \<forall>c < n. sequential_laswp n ?piv [0..<k] A ! (c + r * n) =
             A ! (c + source_row ?piv [0..<k] r * n)"
    using sequential_laswp_cells [OF piv assms(1)] by simp_all
  have "A' = sequential_laswp n ?piv [0..<k] A"
  proof (rule grid_cells_eqI [OF a'(2) s(1)])
    fix r c assume rc: "r < m" "c < n"
    then show "A' ! (c + r * n) = sequential_laswp n ?piv [0..<k] A ! (c + r * n)"
      using a'(3) s(2) set_tasks_cols(2) [OF assms(6) rc(2)] by simp
  qed
  then show "launch (laswp_task (int m) (int n) (int k) PIV) sched A =
           Some (sequential_laswp n (map sint PIV) [0..<k] A)"
    using a'(1) by simp
next
  fix col assume col: "col < n"
  from laswp_task_cells [OF assms(3,4) col assms(2,1)] obtain A' where
    a': "laswp_task (int m) (int n) (int k) PIV (int col) A = Some A'" "length A' = m * n"
      "\<forall>r < m. \<forall>c < n. A' ! (c + r * n) =
                (if c = col then A ! (col + source_row (map sint PIV) [0..<k] r * n)
                 else A ! (c + r * n))"
    by blast
  have piv: "\<forall>x \<in> set [0..<k]. map sint PIV ! x < int m" using assms(3,4) by simp
  have other: "\<forall>B. length B = length A
                        \<and> (\<forall>r < m. B ! (col + r * n) = A ! (col + r * n))
                    \<longrightarrow> (\<exists>B'. laswp_task (int m) (int n) (int k) PIV (int col) B = Some B'
                          \<and> (\<forall>r < m. B' ! (col + r * n) = A' ! (col + r * n)))"
  proof (intro allI impI)
    fix B :: "'a list"
    assume b: "length B = length A \<and> (\<forall>r < m. B ! (col + r * n) = A ! (col + r * n))"
    then have lb: "length B = m * n" using assms(1) by simp
    from laswp_task_cells [OF assms(3,4) col assms(2) lb] obtain B' where
      b': "laswp_task (int m) (int n) (int k) PIV (int col) B = Some B'"
      "\<forall>r < m. \<forall>c < n. B' ! (c + r * n) =
                (if c = col then B ! (col + source_row (map sint PIV) [0..<k] r * n)
                 else B ! (c + r * n))"
      by blast
    have "B' ! (col + r * n) = A' ! (col + r * n)" if r: "r < m" for r
    proof -
      have "source_row (map sint PIV) [0..<k] r < m" using piv r by (rule source_row_less)
      then show ?thesis using b'(2) a'(3) b r col by simp
    qed
    then show "\<exists>B'. laswp_task (int m) (int n) (int k) PIV (int col) B = Some B'
                          \<and> (\<forall>r < m. B' ! (col + r * n) = A' ! (col + r * n))"
      using b'(1) by blast
  qed
  show "\<exists>A'. laswp_task (int m) (int n) (int k) PIV (int col) A = Some A'
              \<and> length A' = length A
              \<and> (\<forall>r < m. \<forall>c < n. c \<noteq> col \<longrightarrow> A' ! (c + r * n) = A ! (c + r * n))
              \<and> (\<forall>B. length B = length A
                        \<and> (\<forall>r < m. B ! (col + r * n) = A ! (col + r * n))
                    \<longrightarrow> (\<exists>B'. laswp_task (int m) (int n) (int k) PIV (int col) B = Some B'
                          \<and> (\<forall>r < m. B' ! (col + r * n) = A' ! (col + r * n))))"
    using a' other assms(1) by auto
next
  have asc: "laswp_loop 1 (int 3) [1, 2, 2] 0 (int 0) [10, 20, 30 :: nat] = Some [20, 30, 10]"
    unfolding laswp_loop_replay
    by (simp add: upt_rec laswp_iter_def laswp_swap_def rd_def wr_def c_int_small)
  have desc: "laswp_replay 1 [1, 2, 2] 0 (map int [2, 1, 0]) [10, 20, 30 :: nat] = Some [30, 10, 20]"
    by (simp add: laswp_iter_def laswp_swap_def rd_def wr_def c_int_small)
  have "distinct [2, 1, 0 :: nat] \<and> set [2, 1, 0 :: nat] = {0..<3}
        \<and> length [1, 2, 2 :: 32 word] = 3
        \<and> (\<forall>x < 3. int x \<le> sint ([1, 2, 2 :: 32 word] ! x)
               \<and> sint ([1, 2, 2 :: 32 word] ! x) < int (length [10, 20, 30 :: nat]))
        \<and> laswp_replay 1 [1, 2, 2] 0 (map int [2, 1, 0]) [10, 20, 30 :: nat]
            \<noteq> laswp_loop 1 (int 3) [1, 2, 2] 0 0 [10, 20, 30 :: nat]"
    using asc desc by (auto simp add: less_Suc_eq numeral_3_eq_3)
  then show "\<exists>K piv rows (B :: nat list).
              distinct rows \<and> set rows = {0..<K} \<and> length piv = K
              \<and> (\<forall>x < K. int x \<le> sint (piv ! x) \<and> sint (piv ! x) < int (length B))
              \<and> laswp_replay 1 piv 0 (map int rows) B \<noteq> laswp_loop 1 (int K) piv 0 0 B"
    by blast
qed

theorem laswp_columns_sequential_witness:
  "launch (laswp_task 3 2 3 [1, 2, 2]) [1, 0] [10, 11, 20, 21, 30, 31 :: int]
     = Some [20, 21, 30, 31, 10, 11]"
proof -
  have h: "length [10, 11, 20, 21, 30, 31 :: int] = 3 * 2" "(3::nat) * 2 < 2 ^ 31"
    "3 \<le> length [1, 2, 2 :: 32 word]" "\<forall>x < 3. sint ([1, 2, 2 :: 32 word] ! x) < int 3"
    "distinct [1, 0 :: int]" "set [1, 0 :: int] = set (tasks 2)"
    by (auto simp add: less_Suc_eq numeral_3_eq_3 tasks_def upt_rec)
  have s: "sequential_laswp 2 (map sint [1, 2, 2 :: 32 word]) [0..<3]
             [10, 11, 20, 21, 30, 31 :: int] = [20, 21, 30, 31, 10, 11]"
    by (simp add: exchange_rows_def upt_rec)
  show ?thesis
    using laswp_columns_sequential [OF h] s by simp
qed

text \<open>
  Without the two conditions the claim fails: on a \<open>50000\<close> by \<open>50000\<close> target with
  the pivot \<open>49999\<close> the launch faults, and so it does on a \<open>2\<close> by \<open>1\<close> target with
  the pivot \<open>5\<close>, which names no row; neither is the result of the sequential
  algorithm.
\<close>

theorem laswp_columns_counterexample:
  "launch (laswp_task 50000 50000 1 [49999]) (tasks 50000) (replicate (50000 * 50000) 0)
     \<noteq> Some (sequential_laswp 50000 (map sint [49999]) [0..<1]
                (replicate (50000 * 50000) (0 :: nat)))
   \<and> launch (laswp_task 2 1 1 [5]) (tasks 1) [10, 20]
     \<noteq> Some (sequential_laswp 1 (map sint [5]) [0..<1] [10, 20 :: nat])"
proof -
  have f2: "laswp_task 2 1 1 [5] 0 A = None" if "length A = 2" for A :: "nat list"
    using that
    by (simp add: laswp_task_def laswp_loop.simps [of _ 1 _ _ 0] laswp_iter_def
        laswp_swap_def rd_def c_int_mod split: option.split)
  have l2: "launch (laswp_task 2 1 1 [5]) (tasks 1) [10, 20 :: nat] = None"
    by (simp add: tasks_def f2)
  show ?thesis by (simp only: laswp_launch_overflow l2) simp
qed

section \<open>The explicit permutation\<close>

lemma source_row_inj:
  "inj (source_row pivots rows)"
proof (induction rows)
  case Nil
  show ?case by (simp add: inj_on_def)
next
  case (Cons k rows)
  show ?case
  proof (cases "pivots ! k \<le> int k")
    case True
    then have "source_row pivots (k # rows) = source_row pivots rows" by (auto simp: fun_eq_iff)
    then show ?thesis using Cons.IH by simp
  next
    case False
    define j where "j = nat (pivots ! k)"
    define t where "t = (\<lambda>s. if s = k then j else if s = j then k else s)"
    have e: "source_row pivots (k # rows) = t \<circ> source_row pivots rows"
      using False by (auto simp: fun_eq_iff t_def j_def Let_def)
    have "inj t" by (auto simp: inj_on_def t_def split: if_splits)
    then have "inj (t \<circ> source_row pivots rows)" using Cons.IH by (rule inj_compose)
    then show ?thesis by (simp only: e)
  qed
qed

lemma source_row_onto:
  assumes "\<forall>k \<in> set rows. pivots ! k < int m" "c < m"
  shows "\<exists>r < m. source_row pivots rows r = c"
proof -
  let ?f = "source_row pivots rows"
  have sub: "?f ` {0..<m} \<subseteq> {0..<m}" using source_row_less [OF assms(1)] by auto
  have "inj_on ?f {0..<m}" using source_row_inj by (rule inj_on_subset) simp
  with sub have "?f ` {0..<m} = {0..<m}" by (intro endo_inj_surj) simp_all
  then have "c \<in> ?f ` {0..<m}" using assms(2) by simp
  then show ?thesis by auto
qed

lemma count_eq_upt: "a < m \<Longrightarrow> length (filter (\<lambda>c. c = a) [0..<m]) = 1"
proof (induction m)
  case 0
  then show ?case by simp
next
  case (Suc m)
  show ?case
  proof (cases "a = m")
    case True
    then have "filter (\<lambda>c. c = a) [0..<m] = []" by (auto simp: filter_empty_conv)
    then show ?thesis using True by simp
  next
    case False
    then show ?thesis using Suc by simp
  qed
qed

lemma count_inj_upt:
  assumes "inj f" "r < m"
  shows "length (filter (\<lambda>x. f x = f r) [0..<m]) = 1"
proof -
  have "(\<lambda>x. f x = f r) = (\<lambda>x. x = r)" using assms(1) by (auto simp: inj_on_def fun_eq_iff)
  then show ?thesis using count_eq_upt [OF assms(2)] by simp
qed

lemma diag_ones_cell:
  assumes "r < m" "c < m"
  shows "(diag_ones m :: ('a::{zero,one}) list) ! (c + r * m) = (if r = c then 1 else 0)"
proof -
  have "c + r * m < m * m" using assms by (rule cell_bound)
  then show ?thesis using assms by (simp add: diag_ones_def)
qed

text \<open>
  Claim C2, as the code has it. The kernel addresses the matrix in 32-bit \<^verbatim>\<open>int\<close>, so
  the claim holds for the orders \<open>m\<close> with \<open>m * m\<close> below \<open>2 ^ 31\<close>. For such an \<open>m\<close>
  and a pivot vector of length \<open>k\<close> whose entry at each position \<open>i\<close> lies in
  \<open>[i, m)\<close>, the kernel replayed on the \<open>m\<close> by \<open>m\<close> identity (one task for each
  column, the columns in any order) returns a permutation matrix: every entry is \<open>0\<close>
  or \<open>1\<close>, and every row and every column holds exactly one \<open>1\<close>.
\<close>

theorem permutation_from_pivots_valid:
  assumes "length piv = k"
    and "\<forall>i < k. int i \<le> sint (piv ! i) \<and> sint (piv ! i) < int m"
    and "m * m < 2 ^ 31"
    and "distinct sched" and "set sched = set (tasks m)"
  shows "\<exists>P :: ('a::zero_neq_one) list.
           permutation_from_pivots sched m k piv = Some P \<and> is_permutation_matrix m P"
proof -
  let ?src = "source_row (map sint piv) [0..<k]"
  have k: "k \<le> length piv" "\<forall>x < k. sint (piv ! x) < int m" using assms(1,2) by simp_all
  have piv: "\<forall>x \<in> set [0..<k]. map sint piv ! x < int m" using k by simp
  have len: "length (diag_ones m :: 'a list) = m * m" by (simp add: diag_ones_def)
  from launch_laswp [OF assms(4) set_tasks_cols(1) [OF assms(5)] k assms(3) len]
  obtain P :: "'a list" where
    p: "launch (laswp_task (int m) (int m) (int k) piv) sched (diag_ones m) = Some P"
      "length P = m * m"
      "\<forall>r < m. \<forall>c < m. P ! (c + r * m) =
          (if int c \<in> set sched then diag_ones m ! (c + ?src r * m)
           else diag_ones m ! (c + r * m))"
    by blast
  have cell: "P ! (c + r * m) = (if ?src r = c then 1 else 0)" if rc: "r < m" "c < m" for r c
  proof -
    have "?src r < m" using piv rc(1) by (rule source_row_less)
    then show ?thesis
      using p(3) rc set_tasks_cols(2) [OF assms(5) rc(2)] by (simp add: diag_ones_cell)
  qed
  have entries: "list_all (\<lambda>x. x = 0 \<or> x = 1) P"
    unfolding list_all_length
  proof (intro allI impI)
    fix a assume "a < length P"
    then have a: "a < m * m" using p(2) by simp
    then have "a div m < m" "a mod m < m" by (rule grid_bounds)+
    then have "P ! (a mod m + (a div m) * m) = (if ?src (a div m) = a mod m then 1 else 0)"
      by (rule cell)
    then show "P ! a = 0 \<or> P ! a = 1" by (simp split: if_splits)
  qed
  have rows: "length (filter (\<lambda>c. P ! (c + r * m) = 1) [0..<m]) = 1" if r: "r < m" for r
  proof -
    have "filter (\<lambda>c. P ! (c + r * m) = 1) [0..<m] = filter (\<lambda>c. c = ?src r) [0..<m]"
      by (rule filter_cong) (auto simp: cell [OF r])
    moreover have "?src r < m" using piv r by (rule source_row_less)
    ultimately show ?thesis by (simp add: count_eq_upt)
  qed
  have cols: "length (filter (\<lambda>r. P ! (c + r * m) = 1) [0..<m]) = 1" if c: "c < m" for c
  proof -
    from source_row_onto [OF piv c] obtain r0 where r0: "r0 < m" "?src r0 = c" by blast
    have "filter (\<lambda>r. P ! (c + r * m) = 1) [0..<m] = filter (\<lambda>r. ?src r = ?src r0) [0..<m]"
      by (rule filter_cong) (auto simp: cell [OF _ c] r0(2))
    then show ?thesis using count_inj_upt [OF source_row_inj r0(1)] by simp
  qed
  have "is_permutation_matrix m P"
    unfolding is_permutation_matrix_def list_all_iff
    using p(2) entries rows cols by (simp add: list_all_iff)
  then show ?thesis using p(1) by (simp add: permutation_from_pivots_def)
qed

theorem permutation_from_pivots_valid_witness:
  "\<exists>P :: int list. permutation_from_pivots (tasks 3) 3 3 [1, 2, 2] = Some P
      \<and> is_permutation_matrix 3 P"
proof -
  have h: "length [1, 2, 2 :: 32 word] = 3"
    "\<forall>i < 3. int i \<le> sint ([1, 2, 2 :: 32 word] ! i) \<and> sint ([1, 2, 2 :: 32 word] ! i) < int 3"
    "(3::nat) * 3 < 2 ^ 31" "distinct (tasks 3)" "set (tasks 3) = set (tasks 3)"
    by (auto simp add: less_Suc_eq numeral_3_eq_3 tasks_def upt_rec)
  show ?thesis using permutation_from_pivots_valid [OF h] by simp
qed

text \<open>
  Without the bound the claim fails: for \<open>m = 50000\<close> and the one pivot \<open>49999\<close>,
  which lies in \<open>[0, m)\<close>, the replay on the identity faults and returns no matrix.
\<close>

theorem permutation_overflow_counterexample:
  "permutation_from_pivots (tasks 50000) 50000 1 [49999] = (None :: nat list option)"
  by (simp add: permutation_from_pivots_def laswp_launch_overflow)

section \<open>The factorization and its status\<close>

lemma world_simps [simp]:
  "ints (record_call c w) = ints w" "warnings (record_call c w) = warnings w"
  "calls (record_call c w) = calls w @ [c]"
  "ints (warn x w) = ints w" "warnings (warn x w) = warnings w @ [x]"
  "calls (warn x w) = calls w"
  "ints (update_ints r f w) = (ints w)[r := f (ints w ! r)]"
  "warnings (update_ints r f w) = warnings w" "calls (update_ints r f w) = calls w"
  by (simp_all add: record_call_def warn_def update_ints_def)

lemma alloc_ints_simps [simp]:
  "fst (alloc_ints v w) = length (ints w)"
  "ints (snd (alloc_ints v w)) = ints w @ [v]"
  "warnings (snd (alloc_ints v w)) = warnings w"
  "calls (snd (alloc_ints v w)) = calls w"
  by (simp_all add: alloc_ints_def)

lemma astype_simps [simp]:
  "shape (astype ext a d) = shape a" "dtype (astype ext a d) = d"
  "f_order (astype ext a d) = True"
  by (simp_all add: astype_def)

text \<open>The factorization once the primitive has been reached.\<close>

lemma private_lu_factor_reached:
  assumes "assert_rank2 a = None" and "routine_for (dtype a) = Some r"
    and "\<not> (check_finite \<and> dtype_kind (dtype a) = CHR ''f''
             \<and> \<not> all_finite ext (astype ext a (dtype a)))"
    and "getrf ext r (shape a ! 0) (shape a ! 1) (buf (astype ext a (dtype a)))
           = (out, ipiv, dev_info)"
  shows "private_lu_factor ext w a overwrite_a check_finite =
    (let w2 = record_call (Getrf r (shape a ! 0) (shape a ! 1) (buf (astype ext a (dtype a))))
                (snd (alloc_ints ipiv w))
     in if sint dev_info < 0
        then (Inl (ValueError_illegal_value_getrf (sint (- dev_info))), w2)
        else (Inr ((astype ext a (dtype a))\<lparr>buf := out\<rparr>, length (ints w)),
              update_ints (length (ints w)) to_zero_origin
                (if sint dev_info > 0
                 then warn (RuntimeWarning_singular (sint dev_info)) w2 else w2)))"
  using assms
  by (simp add: private_lu_factor_def Let_def alloc_ints_def split: prod.splits)

text \<open>
  Claim C4. Whenever the factorization reaches the primitive: a negative status makes
  the call fail with the error that carries the negated status, so a status \<open>- k\<close>
  for an argument index \<open>k\<close> gives the error carrying \<open>k\<close>, no result and no warning;
  a positive status \<open>k\<close> does not fail, emits the one warning about diagonal \<open>k\<close> and
  returns the buffer as the primitive left it with the pivots it wrote (0-origin);
  status zero returns the same with no warning.
\<close>

theorem lu_factor_status:
  assumes "assert_rank2 a = None" and "routine_for (dtype a) = Some r"
    and "\<not> (check_finite \<and> dtype_kind (dtype a) = CHR ''f''
             \<and> \<not> all_finite ext (astype ext a (dtype a)))"
    and "getrf ext r (shape a ! 0) (shape a ! 1) (buf (astype ext a (dtype a)))
           = (out, ipiv, dev_info)"
    and "private_lu_factor ext w a overwrite_a check_finite = (res, w')"
  shows "(sint dev_info < 0 \<longrightarrow>
            res = Inl (ValueError_illegal_value_getrf (sint (- dev_info)))
            \<and> warnings w' = warnings w)
       \<and> (\<forall>k. 0 < sint k \<and> dev_info = - k
              \<longrightarrow> res = Inl (ValueError_illegal_value_getrf (sint k)))
       \<and> (0 < sint dev_info \<longrightarrow>
            (\<exists>ref. res = Inr (\<lparr>shape = shape a, dtype = dtype a, f_order = True, buf = out\<rparr>, ref)
                   \<and> ints w' ! ref = to_zero_origin ipiv)
            \<and> warnings w' = warnings w @ [RuntimeWarning_singular (sint dev_info)])
       \<and> (dev_info = 0 \<longrightarrow>
            (\<exists>ref. res = Inr (\<lparr>shape = shape a, dtype = dtype a, f_order = True, buf = out\<rparr>, ref)
                   \<and> ints w' ! ref = to_zero_origin ipiv)
            \<and> warnings w' = warnings w)"
proof -
  note run = private_lu_factor_reached [OF assms(1-4), of w overwrite_a] assms(5)
  have arr: "(astype ext a (dtype a))\<lparr>buf := out\<rparr>
             = \<lparr>shape = shape a, dtype = dtype a, f_order = True, buf = out\<rparr>"
    by (simp add: astype_def)
  have neg: "res = Inl (ValueError_illegal_value_getrf (sint (- dev_info)))
            \<and> warnings w' = warnings w" if "sint dev_info < 0"
    using run that by (auto simp add: Let_def)
  have arg: "res = Inl (ValueError_illegal_value_getrf (sint k))"
    if k: "0 < sint k \<and> dev_info = - k" for k
  proof -
    have "sint k < 2 ^ 31" using sint_lt [of k] by simp
    then have "signed_take_bit 31 (- sint k) = - sint k"
      using k by (intro signed_take_bit_int_eq_self) simp_all
    then have "sint dev_info = - sint k" using k by (simp add: sint_word_minus)
    then have "sint dev_info < 0" using k by simp
    then show ?thesis using run k by (simp add: Let_def)
  qed
  have pos: "(\<exists>ref. res = Inr (\<lparr>shape = shape a, dtype = dtype a, f_order = True, buf = out\<rparr>, ref)
                   \<and> ints w' ! ref = to_zero_origin ipiv)
            \<and> warnings w' = warnings w @ [RuntimeWarning_singular (sint dev_info)]"
    if "0 < sint dev_info"
    using run that by (auto simp add: Let_def arr)
  have zero: "(\<exists>ref. res = Inr (\<lparr>shape = shape a, dtype = dtype a, f_order = True, buf = out\<rparr>, ref)
                   \<and> ints w' ! ref = to_zero_origin ipiv)
            \<and> warnings w' = warnings w"
    if "dev_info = 0"
    using run that by (auto simp add: Let_def arr)
  show ?thesis using neg arg pos zero by blast
qed


theorem lu_factor_status_witness:
  "(\<exists>ref w'. private_lu_factor singular_backend demo_world demo_singular False True
         = (Inr (\<lparr>shape = [2, 2], dtype = Float32, f_order = True,
                  buf = demo_singular_out\<rparr>, ref), w')
           \<and> ints w' ! ref = [0, 1]
           \<and> warnings w' = warnings demo_world @ [RuntimeWarning_singular 2])
   \<and> fst (private_lu_factor rejecting_backend demo_world demo_singular False True)
         = Inl (ValueError_illegal_value_getrf 4)"
proof -
  have h: "assert_rank2 demo_singular = None" "routine_for (dtype demo_singular) = Some RoutineS"
    by (simp_all add: demo_singular_def assert_rank2_def routine_for_def)
  have fin: "\<not> (True \<and> dtype_kind (dtype demo_singular) = CHR ''f''
             \<and> \<not> all_finite ext (astype ext demo_singular (dtype demo_singular)))"
    if "isfinite ext = cplx_isfinite" for ext
    using that by (simp add: demo_singular_def all_finite_def astype_def to_fortran_def)
  have fs: "isfinite singular_backend = cplx_isfinite"
    "isfinite rejecting_backend = cplx_isfinite"
    by (simp_all add: singular_backend_def rejecting_backend_def demo_backend_def)
  obtain res w' where
    p: "private_lu_factor singular_backend demo_world demo_singular False True = (res, w')"
    by (cases "private_lu_factor singular_backend demo_world demo_singular False True")
  have gp: "getrf singular_backend RoutineS (shape demo_singular ! 0) (shape demo_singular ! 1)
              (buf (astype singular_backend demo_singular (dtype demo_singular)))
        = (demo_singular_out, [1, 2], 2)"
    by (simp add: singular_backend_def)
  from lu_factor_status [OF h fin [OF fs(1)] gp p]
  have 1: "\<exists>ref. res = Inr (\<lparr>shape = [2, 2], dtype = Float32, f_order = True,
                  buf = demo_singular_out\<rparr>, ref) \<and> ints w' ! ref = [0, 1]"
    "warnings w' = warnings demo_world @ [RuntimeWarning_singular 2]"
    by (auto simp add: demo_singular_def to_zero_origin_def)
  obtain res2 w2 where
    n: "private_lu_factor rejecting_backend demo_world demo_singular False True = (res2, w2)"
    by (cases "private_lu_factor rejecting_backend demo_world demo_singular False True")
  have gn: "getrf rejecting_backend RoutineS (shape demo_singular ! 0) (shape demo_singular ! 1)
              (buf (astype rejecting_backend demo_singular (dtype demo_singular)))
        = (buf (astype rejecting_backend demo_singular (dtype demo_singular)), [1, 2], - 4)"
    by (simp add: rejecting_backend_def)
  from lu_factor_status [OF h fin [OF fs(2)] gn n]
  have "res2 = Inl (ValueError_illegal_value_getrf (sint (4 :: 32 word)))" by simp
  then have 2: "fst (private_lu_factor rejecting_backend demo_world demo_singular False True)
                  = Inl (ValueError_illegal_value_getrf 4)"
    using n by simp
  show ?thesis using 1 2 p by auto
qed

section \<open>The solve call\<close>

lemma copy_then_translate [simp]:
  "ints (update_ints (length (ints w)) f (snd (alloc_ints v w))) = ints w @ [f v]"
  by (simp add: alloc_ints_def update_ints_def)

lemma lu_solve_early:
  assumes "\<not> solve_ready fac b \<or> trans_op tr = None"
  shows "\<exists>e. lu_solve ext w (fac, ipiv) b tr overwrite_b check_finite = (Inl e, w)"
  using assms
  by (auto simp add: lu_solve_def solve_ready_def Let_def split: option.splits)

lemma lu_solve_unknown_trans:
  assumes "solve_ready fac b" "trans_op tr = None"
  shows "lu_solve ext w (fac, ipiv) b tr overwrite_b check_finite
         = (Inl ValueError_unknown_trans, w)"
  using assms
  by (auto simp add: lu_solve_def solve_ready_def Let_def split: option.splits)

lemma lu_solve_late:
  assumes "solve_ready fac b" "trans_op tr = Some op" "routine_for (dtype fac) = Some r"
    and "lu_solve ext w (fac, ipiv) b tr overwrite_b check_finite = (res, w')"
  defines "fac1 \<equiv> astype ext fac (dtype fac)" and "b1 \<equiv> astype ext b (dtype fac)"
    and "n \<equiv> (if length (shape b) = 1 then 1 else shape b ! 1)"
  shows "ints w' = ints w @ [to_one_origin (ints w ! ipiv)] \<and> warnings w' = warnings w
       \<and> ((calls w' = calls w \<and> (\<exists>e. res = Inl e))
          \<or> (calls w' = calls w @ [Getrs r op (shape fac ! 0) n (buf fac1)
                                     (to_one_origin (ints w ! ipiv)) (buf b1)]
              \<and> (res = Inr (b1\<lparr>buf := fst (getrs ext r op (shape fac ! 0) n (buf fac1)
                                     (to_one_origin (ints w ! ipiv)) (buf b1))\<rparr>)
                 \<or> (\<exists>k. res = Inl (ValueError_illegal_value_getrs k)))))"
  using assms(1-4) unfolding fac1_def b1_def n_def
  by (auto simp add: lu_solve_def solve_ready_def Let_def alloc_ints_def
      split: option.splits prod.splits if_splits)

subsection \<open>A concrete solve, the mode and the pivots of the caller\<close>

lemma demo_solve_run:
  "lu_solve demo_backend demo_world (demo_factor, 0) demo_rhs 1 False True
   = (Inr demo_rhs,
      \<lparr>ints = [[0, 1], [1, 2]], warnings = [],
       calls = [Getrs RoutineD CUBLAS_OP_T 2 1 (buf demo_factor) [1, 2] (buf demo_rhs)]\<rparr>)"
  by (simp add: lu_solve_def demo_backend_def demo_world_def demo_factor_def demo_rhs_def
      assert_rank2_def assert_nd_squareness_def routine_for_def
      trans_op_def astype_def to_fortran_def all_finite_def alloc_ints_def update_ints_def
      record_call_def to_one_origin_def Let_def)

lemma demo_solve_ready: "solve_ready demo_factor demo_rhs"
  by (simp add: solve_ready_def demo_factor_def demo_rhs_def assert_rank2_def
      assert_nd_squareness_def routine_for_def)

lemma trans_op_cases:
  "trans_op tr = None \<longleftrightarrow> tr \<noteq> 0 \<and> tr \<noteq> 1 \<and> tr \<noteq> 2"
  "trans_op 0 = Some CUBLAS_OP_N" "trans_op 1 = Some CUBLAS_OP_T" "trans_op 2 = Some CUBLAS_OP_C"
  by (simp_all add: trans_op_def)

lemma lu_solve_known_trans:
  assumes "trans_op tr = Some op"
  shows "fst (lu_solve ext w (fac, ipiv) b tr overwrite_b check_finite)
         \<noteq> Inl ValueError_unknown_trans"
  using assms
  by (auto simp add: lu_solve_def Let_def assert_rank2_def assert_nd_squareness_def
      split: option.splits prod.splits if_splits)

lemma lu_solve_reached:
  assumes "solve_checks_pass ext fac b check_finite" "trans_op tr = Some op"
  shows "\<exists>r m n l p x.
           calls (snd (lu_solve ext w (fac, ipiv) b tr overwrite_b check_finite))
             = calls w @ [Getrs r op m n l p x]"
  using assms
  by (auto simp add: lu_solve_def solve_checks_pass_def solve_ready_def Let_def alloc_ints_def
      split: option.splits prod.splits)

text \<open>
  Claim C8. In every solve call the modes \<open>0\<close>, \<open>1\<close> and \<open>2\<close> are never refused as
  unknown, and they reach the primitive as no-transpose, transpose and
  conjugate-transpose: whenever the call invokes the primitive it does so with that
  mode, and it does invoke it whenever the checks that come before it pass. Any other
  mode fails without an invocation of the primitive, and with the error for the
  unknown mode once the checks that precede the mode have passed.
\<close>

theorem lu_solve_trans:
  assumes "lu_solve ext w (fac, ipiv) b tr overwrite_b check_finite = (res, w')"
  shows "(tr \<noteq> 0 \<and> tr \<noteq> 1 \<and> tr \<noteq> 2 \<longrightarrow>
            (\<exists>e. res = Inl e) \<and> calls w' = calls w
            \<and> (solve_ready fac b \<longrightarrow> res = Inl ValueError_unknown_trans))
       \<and> (\<forall>op. (tr = 0 \<and> op = CUBLAS_OP_N) \<or> (tr = 1 \<and> op = CUBLAS_OP_T)
                 \<or> (tr = 2 \<and> op = CUBLAS_OP_C) \<longrightarrow>
              res \<noteq> Inl ValueError_unknown_trans
              \<and> ((calls w' = calls w \<and> (\<exists>e. res = Inl e))
                 \<or> (\<exists>r m n l p x. calls w' = calls w @ [Getrs r op m n l p x]))
              \<and> (solve_checks_pass ext fac b check_finite \<longrightarrow>
                   (\<exists>r m n l p x. calls w' = calls w @ [Getrs r op m n l p x])))"
proof (intro conjI impI allI)
  assume t: "tr \<noteq> 0 \<and> tr \<noteq> 1 \<and> tr \<noteq> 2"
  then have n: "trans_op tr = None" by (simp add: trans_op_cases)
  then obtain e where "lu_solve ext w (fac, ipiv) b tr overwrite_b check_finite = (Inl e, w)"
    using lu_solve_early [of fac b tr ext w ipiv overwrite_b check_finite] by blast
  then show "\<exists>e. res = Inl e" "calls w' = calls w" using assms by simp_all
  show "res = Inl ValueError_unknown_trans" if "solve_ready fac b"
    using lu_solve_unknown_trans [OF that n, of ext w ipiv overwrite_b check_finite] assms
    by simp
next
  fix op
  assume "(tr = 0 \<and> op = CUBLAS_OP_N) \<or> (tr = 1 \<and> op = CUBLAS_OP_T)
          \<or> (tr = 2 \<and> op = CUBLAS_OP_C)"
  then have op: "trans_op tr = Some op" by (auto simp add: trans_op_cases)
  show "res \<noteq> Inl ValueError_unknown_trans"
    using lu_solve_known_trans [OF op, of ext w fac ipiv b overwrite_b check_finite] assms
    by simp
  show "(calls w' = calls w \<and> (\<exists>e. res = Inl e))
        \<or> (\<exists>r m n l p x. calls w' = calls w @ [Getrs r op m n l p x])"
  proof (cases "solve_ready fac b")
    case False
    then obtain e where "lu_solve ext w (fac, ipiv) b tr overwrite_b check_finite = (Inl e, w)"
      using lu_solve_early [of fac b tr ext w ipiv overwrite_b check_finite] by blast
    then show ?thesis using assms by simp
  next
    case True
    then obtain r where r: "routine_for (dtype fac) = Some r"
      by (auto simp add: solve_ready_def)
    from lu_solve_late [OF True op r assms] show ?thesis by blast
  qed
  show "\<exists>r m n l p x. calls w' = calls w @ [Getrs r op m n l p x]"
    if "solve_checks_pass ext fac b check_finite"
    using lu_solve_reached [OF that op, of w ipiv overwrite_b] assms by simp
qed

lemma demo_solve_checks_pass: "solve_checks_pass demo_backend demo_factor demo_rhs True"
  using demo_solve_ready
  by (simp add: solve_checks_pass_def demo_factor_def demo_rhs_def demo_backend_def
      all_finite_def astype_def to_fortran_def)

theorem lu_solve_trans_witness:
  "(\<exists>r m n l p x.
      calls (snd (lu_solve demo_backend demo_world (demo_factor, 0) demo_rhs 0 False True))
        = calls demo_world @ [Getrs r CUBLAS_OP_N m n l p x])
   \<and> (\<exists>r m n l p x.
      calls (snd (lu_solve demo_backend demo_world (demo_factor, 0) demo_rhs 1 False True))
        = calls demo_world @ [Getrs r CUBLAS_OP_T m n l p x])
   \<and> (\<exists>r m n l p x.
      calls (snd (lu_solve demo_backend demo_world (demo_factor, 0) demo_rhs 2 False True))
        = calls demo_world @ [Getrs r CUBLAS_OP_C m n l p x])
   \<and> lu_solve demo_backend demo_world (demo_factor, 0) demo_rhs 3 False True
        = (Inl ValueError_unknown_trans, demo_world)"
proof -
  have run: "lu_solve demo_backend demo_world (demo_factor, 0) demo_rhs tr False True
      = (fst (lu_solve demo_backend demo_world (demo_factor, 0) demo_rhs tr False True),
         snd (lu_solve demo_backend demo_world (demo_factor, 0) demo_rhs tr False True))"
    for tr by simp
  have 0: "\<exists>r m n l p x.
      calls (snd (lu_solve demo_backend demo_world (demo_factor, 0) demo_rhs 0 False True))
        = calls demo_world @ [Getrs r CUBLAS_OP_N m n l p x]"
    using lu_solve_trans [OF run [of 0]] demo_solve_checks_pass by simp
  have 1: "\<exists>r m n l p x.
      calls (snd (lu_solve demo_backend demo_world (demo_factor, 0) demo_rhs 1 False True))
        = calls demo_world @ [Getrs r CUBLAS_OP_T m n l p x]"
    using lu_solve_trans [OF run [of 1]] demo_solve_checks_pass by simp
  have 2: "\<exists>r m n l p x.
      calls (snd (lu_solve demo_backend demo_world (demo_factor, 0) demo_rhs 2 False True))
        = calls demo_world @ [Getrs r CUBLAS_OP_C m n l p x]"
    using lu_solve_trans [OF run [of 2]] demo_solve_checks_pass by simp
  have e: "\<exists>e. lu_solve demo_backend demo_world (demo_factor, 0) demo_rhs 3 False True
             = (Inl e, demo_world)"
    using lu_solve_early [of demo_factor demo_rhs 3 demo_backend demo_world 0 False True]
    by (simp add: trans_op_cases)
  have 3: "lu_solve demo_backend demo_world (demo_factor, 0) demo_rhs 3 False True
        = (Inl ValueError_unknown_trans, demo_world)"
    using lu_solve_trans [OF run [of 3]] demo_solve_ready e by auto
  show ?thesis using 0 1 2 3 by blast
qed

text \<open>
  Claim C9. A solve call leaves the caller's pivot array, and every integer array that
  existed before the call, with the entries it had, whether the call returns or
  fails: the pivots the primitive is given are those of an array allocated by the
  call itself.
\<close>

theorem lu_solve_keeps_pivots:
  assumes "lu_solve ext w (fac, ipiv) b tr overwrite_b check_finite = (res, w')"
    and "ipiv < length (ints w)"
  shows "ints w' ! ipiv = ints w ! ipiv
       \<and> take (length (ints w)) (ints w') = ints w
       \<and> (\<forall>c \<in> set (drop (length (calls w)) (calls w')). \<forall>r op m n l p x.
             c = Getrs r op m n l p x \<longrightarrow>
               length (ints w) < length (ints w') \<and> p = ints w' ! length (ints w))"
proof (cases "solve_ready fac b \<and> trans_op tr \<noteq> None")
  case False
  then obtain e where "lu_solve ext w (fac, ipiv) b tr overwrite_b check_finite = (Inl e, w)"
    using lu_solve_early [of fac b tr ext w ipiv overwrite_b check_finite] by blast
  then show ?thesis using assms by simp
next
  case True
  then obtain r op where r: "routine_for (dtype fac) = Some r" "trans_op tr = Some op"
    by (auto simp add: solve_ready_def)
  from lu_solve_late [OF conjunct1 [OF True] r(2,1) assms(1)]
  show ?thesis using assms(2) by (auto simp add: nth_append)
qed

theorem lu_solve_keeps_pivots_witness:
  "ints (snd (lu_solve demo_backend demo_world (demo_factor, 0) demo_rhs 1 False True)) ! 0
     = [0, 1]
   \<and> ints (snd (lu_solve demo_backend demo_world (demo_factor, 0) demo_rhs 1 False True)) ! 1
     = [1, 2]"
proof -
  have h: "0 < length (ints demo_world)" by (simp add: demo_world_def)
  show ?thesis
    using lu_solve_keeps_pivots [OF demo_solve_run h]
    by (simp add: demo_solve_run)
qed

section \<open>The translation of the pivots\<close>

lemma private_lu_factor_success:
  assumes "private_lu_factor ext w a overwrite_a check_finite = (Inr (fac, ref), w')"
  shows "\<exists>r out ipiv dev_info.
           assert_rank2 a = None \<and> routine_for (dtype a) = Some r
           \<and> getrf ext r (shape a ! 0) (shape a ! 1) (buf (astype ext a (dtype a)))
               = (out, ipiv, dev_info)
           \<and> \<not> sint dev_info < 0
           \<and> fac = (astype ext a (dtype a))\<lparr>buf := out\<rparr> \<and> ref = length (ints w)
           \<and> ints w' = ints w @ [to_zero_origin ipiv]
           \<and> calls w' = calls w @ [Getrf r (shape a ! 0) (shape a ! 1)
                                     (buf (astype ext a (dtype a)))]"
  using assms
  by (auto simp add: private_lu_factor_def Let_def alloc_ints_def
      split: option.splits prod.splits if_splits)

text \<open>
  Claim C7. Translating a pivot vector to 1-origin and back to 0-origin gives the
  vector back; a factorization that returns has stored, for every pivot the primitive
  wrote, that pivot minus one; and a solve call that invokes the primitive passes it
  pivots that are, entry by entry, the caller's pivots plus one.
\<close>

theorem pivot_translation:
  "to_zero_origin (to_one_origin v) = v
   \<and> (private_lu_factor ext w a overwrite_a check_finite = (Inr (fac, ref), w') \<longrightarrow>
        (\<exists>r out ipiv dev_info.
           routine_for (dtype a) = Some r
           \<and> getrf ext r (shape a ! 0) (shape a ! 1) (buf (astype ext a (dtype a)))
               = (out, ipiv, dev_info)
           \<and> length (ints w' ! ref) = length ipiv
           \<and> (\<forall>i < length ipiv. ints w' ! ref ! i = ipiv ! i - 1)))
   \<and> (lu_solve ext w (fac, piv) b tr overwrite_b check_finite = (res, w'') \<longrightarrow>
        (calls w'' = calls w \<and> (\<exists>e. res = Inl e))
        \<or> (\<exists>r op m n l x p.
              calls w'' = calls w @ [Getrs r op m n l p x]
              \<and> length p = length (ints w ! piv)
              \<and> (\<forall>i < length p. p ! i = ints w ! piv ! i + 1)))"
proof (intro conjI impI)
  show "to_zero_origin (to_one_origin v) = v"
    by (simp add: to_zero_origin_def to_one_origin_def comp_def)
next
  assume "private_lu_factor ext w a overwrite_a check_finite = (Inr (fac, ref), w')"
  from private_lu_factor_success [OF this] obtain r out ipiv dev_info where
    s: "routine_for (dtype a) = Some r"
      "getrf ext r (shape a ! 0) (shape a ! 1) (buf (astype ext a (dtype a)))
               = (out, ipiv, dev_info)"
      "ref = length (ints w)" "ints w' = ints w @ [to_zero_origin ipiv]"
    by blast
  have "ints w' ! ref = map (\<lambda>p. p - 1) ipiv" using s(3,4) by (simp add: to_zero_origin_def)
  then have "length (ints w' ! ref) = length ipiv
           \<and> (\<forall>i < length ipiv. ints w' ! ref ! i = ipiv ! i - 1)" by simp
  then show "\<exists>r out ipiv dev_info.
           routine_for (dtype a) = Some r
           \<and> getrf ext r (shape a ! 0) (shape a ! 1) (buf (astype ext a (dtype a)))
               = (out, ipiv, dev_info)
           \<and> length (ints w' ! ref) = length ipiv
           \<and> (\<forall>i < length ipiv. ints w' ! ref ! i = ipiv ! i - 1)"
    using s(1,2) by blast
next
  assume run: "lu_solve ext w (fac, piv) b tr overwrite_b check_finite = (res, w'')"
  show "(calls w'' = calls w \<and> (\<exists>e. res = Inl e))
        \<or> (\<exists>r op m n l x p.
              calls w'' = calls w @ [Getrs r op m n l p x]
              \<and> length p = length (ints w ! piv)
              \<and> (\<forall>i < length p. p ! i = ints w ! piv ! i + 1))"
  proof (cases "solve_ready fac b \<and> trans_op tr \<noteq> None")
    case False
    then obtain e where "lu_solve ext w (fac, piv) b tr overwrite_b check_finite = (Inl e, w)"
      using lu_solve_early [of fac b tr ext w piv overwrite_b check_finite] by blast
    then show ?thesis using run by simp
  next
    case True
    then obtain r op where r: "routine_for (dtype fac) = Some r" "trans_op tr = Some op"
      by (auto simp add: solve_ready_def)
    have p: "length (to_one_origin (ints w ! piv)) = length (ints w ! piv)
           \<and> (\<forall>i < length (to_one_origin (ints w ! piv)).
                 to_one_origin (ints w ! piv) ! i = ints w ! piv ! i + 1)"
      by (simp add: to_one_origin_def)
    from lu_solve_late [OF conjunct1 [OF True] r(2,1) run] p
    show ?thesis by blast
  qed
qed

theorem pivot_translation_witness:
  "(\<exists>r op m n l x.
      calls (snd (lu_solve demo_backend demo_world (demo_factor, 0) demo_rhs 1 False True))
        = [Getrs r op m n l [1, 2] x])
   \<and> (\<exists>fac w'. private_lu_factor demo_backend demo_world demo_factor False True
         = (Inr (fac, 1), w') \<and> ints w' ! 1 = [0, 1])"
proof -
  have f: "private_lu_factor demo_backend demo_world demo_factor False True
       = (Inr (demo_factor, 1),
          \<lparr>ints = [[0, 1], [0, 1]], warnings = [],
           calls = [Getrf RoutineD 2 2 (buf demo_factor)]\<rparr>)"
    by (simp add: private_lu_factor_def demo_backend_def demo_world_def demo_factor_def
      assert_rank2_def routine_for_def astype_def to_fortran_def all_finite_def alloc_ints_def
      update_ints_def record_call_def to_zero_origin_def Let_def upt_rec)
  note t = pivot_translation [where v = "[0, 1]" and ext = demo_backend and w = demo_world
      and a = demo_factor and overwrite_a = False and check_finite = True
      and fac = demo_factor and ref = 1
      and w' = "\<lparr>ints = [[0, 1], [0, 1]], warnings = [],
           calls = [Getrf RoutineD 2 2 (buf demo_factor)]\<rparr>"
      and piv = 0 and b = demo_rhs and tr = 1 and overwrite_b = False
      and res = "Inr demo_rhs"
      and w'' = "\<lparr>ints = [[0, 1], [1, 2]], warnings = [],
       calls = [Getrs RoutineD CUBLAS_OP_T 2 1 (buf demo_factor) [1, 2] (buf demo_rhs)]\<rparr>"]
  have 1: "\<exists>r op m n l x.
      calls (snd (lu_solve demo_backend demo_world (demo_factor, 0) demo_rhs 1 False True))
        = [Getrs r op m n l [1, 2] x]"
    using t by (simp add: demo_solve_run)
  have 2: "\<exists>fac w'. private_lu_factor demo_backend demo_world demo_factor False True
         = (Inr (fac, 1), w') \<and> ints w' ! 1 = [0, 1]"
    using t f by simp
  show ?thesis using 1 2 by simp
qed

section \<open>The dtype of the explicit permutation\<close>

lemma char_in_fF:
  "dtype_char d \<in> set ''fF'' \<longleftrightarrow> d = Float32 \<or> d = Complex64"
  by (cases d) simp_all

lemma routine_for_supported:
  "routine_for d = Some r \<Longrightarrow> d = Float32 \<or> d = Float64 \<or> d = Complex64 \<or> d = Complex128"
  by (cases d) (simp_all add: routine_for_def)

text \<open>
  Claim C10. When \<^verbatim>\<open>lu\<close> is called with \<^verbatim>\<open>permute_l\<close> disabled and returns, it
  returns \<open>(P, L, U)\<close> where \<open>L\<close> and \<open>U\<close> have the dtype of the input and \<open>P\<close> has a
  real dtype: single precision when the input is single precision, real or complex,
  and double precision otherwise. For a complex input the dtype of \<open>P\<close> therefore
  differs from that of \<open>L\<close> and \<open>U\<close>.
\<close>

theorem lu_permutation_dtype:
  assumes "lu ext junkL junkU w a False overwrite_a check_finite = (Inr res, w')"
  shows "\<exists>P L U. res = P_L_U P L U
           \<and> dtype L = dtype a \<and> dtype U = dtype a
           \<and> dtype P = (if dtype a = Float32 \<or> dtype a = Complex64 then Float32 else Float64)
           \<and> (dtype a = Complex64 \<or> dtype a = Complex128 \<longrightarrow> dtype P \<noteq> dtype L)"
proof -
  from assms obtain fac ref w1 where
    f: "private_lu_factor ext w a overwrite_a check_finite = (Inr (fac, ref), w1)"
    by (auto simp add: lu_def split: prod.splits sum.splits)
  from private_lu_factor_success [OF f] have d: "dtype fac = dtype a" by auto
  from assms f obtain P L U where
    r: "res = P_L_U P L U" "dtype L = dtype fac" "dtype U = dtype fac"
      "dtype P = (if dtype_char (dtype fac) \<in> set ''fF'' then Float32 else Float64)"
    by (auto simp add: lu_def Let_def split: option.splits prod.splits)
  have p: "dtype P = (if dtype a = Float32 \<or> dtype a = Complex64 then Float32 else Float64)"
    using r(4) by (simp only: char_in_fF d)
  show ?thesis
    using r(1,2,3) d p by auto
qed

lemma demo_lu_run:
  "lu demo_backend (\<lambda>_. 0) (\<lambda>_. 0) demo_world demo_complex False False True
   = (Inr (P_L_U \<lparr>shape = [1, 1], dtype = Float32, f_order = False, buf = [1]\<rparr>
                 \<lparr>shape = [1, 1], dtype = Complex64, f_order = False, buf = [1]\<rparr>
                 \<lparr>shape = [1, 1], dtype = Complex64, f_order = False,
                   buf = [Cplx (Finite 2) (Finite 0)]\<rparr>),
      \<lparr>ints = [[0, 1], [0]], warnings = [],
       calls = [Getrf RoutineC 1 1 [Cplx (Finite 2) (Finite 0)]]\<rparr>)"
  by (simp add: lu_def private_lu_factor_def demo_backend_def demo_world_def demo_complex_def
      assert_rank2_def routine_for_def astype_def to_fortran_def all_finite_def alloc_ints_def
      update_ints_def record_call_def to_zero_origin_def Let_def split_lu_def cupy_empty_def
      tasks_def split_lu_task_def split_lu_src_def split_lu_row_def split_lu_col_def
      split_lu_vals_def split_lu_L_addr_def split_lu_U_addr_def guarded_wr_def rd_def wr_def
      c_int_small permutation_from_pivots_def diag_ones_def laswp_task_def
      laswp_loop.simps [of _ 1 _ _ 0] laswp_loop.simps [of _ 1 _ _ 1] laswp_iter_def)

theorem lu_permutation_dtype_witness:
  "\<exists>P L U w'. lu demo_backend (\<lambda>_. 0) (\<lambda>_. 0) demo_world demo_complex False False True
                 = (Inr (P_L_U P L U), w')
     \<and> dtype P = Float32 \<and> dtype L = Complex64 \<and> dtype U = Complex64"
  using lu_permutation_dtype [OF demo_lu_run]
  by (simp add: demo_lu_run)

section \<open>The finiteness check\<close>

lemma set_concat_transpose: "set (concat (transpose xss)) = set (concat xss)"
proof (induction xss rule: transpose.induct)
  case 1
  show ?case by simp
next
  case (2 xss)
  then show ?case by simp
next
  case (3 x xs xss)
  let ?H = "case_list [] (\<lambda>h t. [h])"
  let ?T = "case_list [] (\<lambda>h t. t)"
  have part: "set (?H ys) \<union> set (?T ys) = set ys" for ys :: "'a list"
    by (cases ys) simp_all
  have h: "set (concat (map ?H yss)) \<union> set (concat (map ?T yss)) = set (concat yss)"
    for yss :: "'a list list"
  proof (induction yss)
    case Nil
    show ?case by simp
  next
    case (Cons ys yss)
    have e: "set (concat (map ?H (ys # yss))) = set (?H ys) \<union> set (concat (map ?H yss))"
      "set (concat (map ?T (ys # yss))) = set (?T ys) \<union> set (concat (map ?T yss))"
      "set (concat (ys # yss)) = set ys \<union> set (concat yss)"
      by simp_all
    show ?case unfolding e using Cons.IH part [of ys] by blast
  qed
  have tl: "concat (concat (map (case_list [] (\<lambda>h t. [t])) yss)) = concat (map ?T yss)"
    for yss :: "'a list list"
    by (induction yss) (simp_all split: list.splits)
  have "set (concat (transpose ((x # xs) # xss)))
        = insert x (set (concat (map ?H xss)))
          \<union> set (concat (transpose (xs # concat (map (case_list [] (\<lambda>h t. [t])) xss))))"
    by simp
  also have "\<dots> = insert x (set (concat (map ?H xss)))
          \<union> (set xs \<union> set (concat (map ?T xss)))"
    by (simp only: "3.IH" concat.simps set_append tl)
  also have "\<dots> = insert x (set xs) \<union> set (concat xss)"
    using h [of xss] by blast
  finally show ?case by simp
qed

lemma concat_blocks:
  "length xs = d * P \<Longrightarrow> concat (map (\<lambda>i. take P (drop (i * P) xs)) [0..<d]) = xs"
proof (induction d arbitrary: xs)
  case 0
  then show ?case by simp
next
  case (Suc d)
  have "length (drop P xs) = d * P" using Suc.prems by simp
  from Suc.IH [OF this]
  have ih: "concat (map (\<lambda>i. take P (drop (i * P + P) xs)) [0..<d]) = drop P xs"
    by (simp add: add.commute)
  have "[0..<Suc d] = 0 # map Suc [0..<d]" by (simp add: upt_conv_Cons map_Suc_upt del: upt_Suc)
  then have "concat (map (\<lambda>i. take P (drop (i * P) xs)) [0..<Suc d])
        = take P xs @ concat (map (\<lambda>i. take P (drop (i * P + P) xs)) [0..<d])"
    by (simp add: comp_def add.commute del: upt_Suc)
  then show ?case using ih by simp
qed

lemma set_fortran_layout:
  "length xs = prod_list shp \<Longrightarrow> set (fortran_layout shp xs) = set xs"
proof (induction shp arbitrary: xs)
  case Nil
  then show ?case by simp
next
  case (Cons d ds)
  let ?P = "prod_list ds"
  have len: "length xs = d * ?P" using Cons.prems by simp
  have blk: "set (fortran_layout ds (take ?P (drop (i * ?P) xs))) = set (take ?P (drop (i * ?P) xs))"
    if "i < d" for i
  proof -
    have "Suc i * ?P \<le> d * ?P" using that by (intro mult_le_mono1) simp
    then have "length (take ?P (drop (i * ?P) xs)) = ?P" using len by simp
    then show ?thesis by (rule Cons.IH)
  qed
  have "set (fortran_layout (d # ds) xs)
        = (\<Union>i \<in> {0..<d}. set (fortran_layout ds (take ?P (drop (i * ?P) xs))))"
    by (simp only: fortran_layout.simps set_concat_transpose) simp
  also have "\<dots> = (\<Union>i \<in> {0..<d}. set (take ?P (drop (i * ?P) xs)))"
    using blk by simp
  also have "\<dots> = set (concat (map (\<lambda>i. take ?P (drop (i * ?P) xs)) [0..<d]))"
    by simp
  also have "\<dots> = set xs" using concat_blocks [OF len] by simp
  finally show ?case .
qed

lemma set_to_fortran:
  assumes "length xs = prod_list shp"
  shows "set (to_fortran shp f xs) = set xs"
  using assms by (simp add: to_fortran_def set_fortran_layout)

lemma all_finite_astype:
  assumes "wf_array a"
  shows "all_finite ext (astype ext a d)
         \<longleftrightarrow> (\<forall>x \<in> set (buf a). isfinite ext (converted ext (dtype a) d x))"
proof -
  have "set (to_fortran (shape a) (f_order a) (buf a)) = set (buf a)"
    using assms by (intro set_to_fortran) (simp add: wf_array_def)
  then show ?thesis
    by (auto simp add: all_finite_def astype_def list_all_iff converted_def)
qed

lemma converted_same [simp]: "converted ext d d x = x"
  by (simp add: converted_def)

lemma private_lu_factor_not_finite:
  assumes "assert_rank2 a = None" "routine_for (dtype a) \<noteq> None"
  shows "fst (private_lu_factor ext w a overwrite_a check_finite) = Inl ValueError_not_finite
         \<longleftrightarrow> check_finite \<and> dtype_kind (dtype a) = CHR ''f''
             \<and> \<not> all_finite ext (astype ext a (dtype a))"
  using assms
  by (auto simp add: private_lu_factor_def Let_def split: option.splits prod.splits)

lemma lu_solve_not_finite:
  assumes "solve_ready fac b" "trans_op tr \<noteq> None"
  shows "fst (lu_solve ext w (fac, ipiv) b tr overwrite_b check_finite)
           = Inl ValueError_not_finite_lu
         \<longleftrightarrow> check_finite \<and> dtype_kind (dtype fac) = CHR ''f''
             \<and> \<not> all_finite ext (astype ext fac (dtype fac))"
    and "fst (lu_solve ext w (fac, ipiv) b tr overwrite_b check_finite)
           = Inl ValueError_not_finite
         \<longleftrightarrow> check_finite \<and> dtype_kind (dtype fac) = CHR ''f''
             \<and> all_finite ext (astype ext fac (dtype fac))
             \<and> \<not> all_finite ext (astype ext b (dtype fac))"
  using assms
  by (auto simp add: lu_solve_def solve_ready_def Let_def
      split: option.splits prod.splits)

text \<open>
  Claim C3, as the code has it. The check is guarded by \<^verbatim>\<open>dtype.kind == 'f'\<close>, so it
  is made for real dtypes only. A factorization that gets as far as the check raises
  the finiteness error exactly when checking is enabled, the dtype is real and some
  element of the input is non-finite. A solve call that gets as far as the check
  raises the error about the factor exactly when checking is enabled, the dtype of
  the factor is real and some element of the factor is non-finite, and the error about
  the right-hand side exactly when checking is enabled, that dtype is real, the factor
  is finite and some element of the right-hand side, converted to the dtype of the
  factor, is non-finite. So with checking disabled, and for every complex input, no
  finiteness error is raised.
\<close>

theorem finiteness_check:
  "(assert_rank2 a = None \<and> routine_for (dtype a) \<noteq> None \<and> wf_array a \<longrightarrow>
      (fst (private_lu_factor ext w a overwrite_a check_finite) = Inl ValueError_not_finite
       \<longleftrightarrow> check_finite \<and> dtype_kind (dtype a) = CHR ''f''
           \<and> (\<exists>x \<in> set (buf a). \<not> isfinite ext x)))
   \<and> (solve_ready fac b \<and> trans_op tr \<noteq> None \<and> wf_array fac \<and> wf_array b \<longrightarrow>
      (fst (lu_solve ext w (fac, ipiv) b tr overwrite_b check_finite)
         = Inl ValueError_not_finite_lu
       \<longleftrightarrow> check_finite \<and> dtype_kind (dtype fac) = CHR ''f''
           \<and> (\<exists>x \<in> set (buf fac). \<not> isfinite ext x))
      \<and> (fst (lu_solve ext w (fac, ipiv) b tr overwrite_b check_finite)
         = Inl ValueError_not_finite
       \<longleftrightarrow> check_finite \<and> dtype_kind (dtype fac) = CHR ''f''
           \<and> (\<forall>x \<in> set (buf fac). isfinite ext x)
           \<and> (\<exists>x \<in> set (buf b). \<not> isfinite ext (converted ext (dtype b) (dtype fac) x))))"
proof (intro conjI impI)
  assume h: "assert_rank2 a = None \<and> routine_for (dtype a) \<noteq> None \<and> wf_array a"
  then have "all_finite ext (astype ext a (dtype a)) \<longleftrightarrow> (\<forall>x \<in> set (buf a). isfinite ext x)"
    by (simp add: all_finite_astype)
  then show "fst (private_lu_factor ext w a overwrite_a check_finite) = Inl ValueError_not_finite
       \<longleftrightarrow> check_finite \<and> dtype_kind (dtype a) = CHR ''f''
           \<and> (\<exists>x \<in> set (buf a). \<not> isfinite ext x)"
    using private_lu_factor_not_finite [of a ext w overwrite_a check_finite] h by simp
next
  assume h: "solve_ready fac b \<and> trans_op tr \<noteq> None \<and> wf_array fac \<and> wf_array b"
  then have f: "all_finite ext (astype ext fac (dtype fac))
                \<longleftrightarrow> (\<forall>x \<in> set (buf fac). isfinite ext x)"
    by (simp add: all_finite_astype)
  have r: "all_finite ext (astype ext b (dtype fac))
           \<longleftrightarrow> (\<forall>x \<in> set (buf b). isfinite ext (converted ext (dtype b) (dtype fac) x))"
    using h by (simp add: all_finite_astype)
  show "fst (lu_solve ext w (fac, ipiv) b tr overwrite_b check_finite)
         = Inl ValueError_not_finite_lu
       \<longleftrightarrow> check_finite \<and> dtype_kind (dtype fac) = CHR ''f''
           \<and> (\<exists>x \<in> set (buf fac). \<not> isfinite ext x)"
    using lu_solve_not_finite(1) [of fac b tr ext w ipiv overwrite_b check_finite] h f by simp
  show "fst (lu_solve ext w (fac, ipiv) b tr overwrite_b check_finite)
         = Inl ValueError_not_finite
       \<longleftrightarrow> check_finite \<and> dtype_kind (dtype fac) = CHR ''f''
           \<and> (\<forall>x \<in> set (buf fac). isfinite ext x)
           \<and> (\<exists>x \<in> set (buf b). \<not> isfinite ext (converted ext (dtype b) (dtype fac) x))"
    using lu_solve_not_finite(2) [of fac b tr ext w ipiv overwrite_b check_finite] h f r by simp
qed

lemma demo_facts:
  "assert_rank2 demo_real_nan = None" "routine_for (dtype demo_real_nan) \<noteq> None"
  "wf_array demo_real_nan" "dtype_kind (dtype demo_real_nan) = CHR ''f''"
  "assert_rank2 demo_complex_nan = None" "routine_for (dtype demo_complex_nan) \<noteq> None"
  "wf_array demo_complex_nan"
  "\<exists>x \<in> set (buf demo_real_nan). \<not> isfinite demo_backend x"
  "\<exists>x \<in> set (buf demo_complex_nan). \<not> isfinite demo_backend x"
  by (simp_all add: demo_real_nan_def demo_complex_nan_def demo_backend_def assert_rank2_def
      routine_for_def wf_array_def)

theorem finiteness_check_witness:
  "fst (private_lu_factor demo_backend demo_world demo_real_nan False True)
     = Inl ValueError_not_finite
   \<and> fst (private_lu_factor demo_backend demo_world demo_real_nan False False)
     \<noteq> Inl ValueError_not_finite
   \<and> fst (lu_solve demo_backend demo_world (demo_factor, 0) demo_rhs 1 False True)
     \<noteq> Inl ValueError_not_finite_lu"
proof -
  have s: "solve_ready demo_factor demo_rhs \<and> trans_op 1 \<noteq> None \<and> wf_array demo_factor
           \<and> wf_array demo_rhs"
    using demo_solve_ready
    by (simp add: trans_op_def wf_array_def demo_factor_def demo_rhs_def)
  have fin: "\<not> (\<exists>x \<in> set (buf demo_factor). \<not> isfinite demo_backend x)"
    by (simp add: demo_factor_def demo_backend_def)
  have 1: "fst (private_lu_factor demo_backend demo_world demo_real_nan False True)
     = Inl ValueError_not_finite"
    using finiteness_check [where a = demo_real_nan and ext = demo_backend
        and w = demo_world and overwrite_a = False and check_finite = True] demo_facts
    by simp
  have 2: "fst (private_lu_factor demo_backend demo_world demo_real_nan False False)
     \<noteq> Inl ValueError_not_finite"
    using finiteness_check [where a = demo_real_nan and ext = demo_backend
        and w = demo_world and overwrite_a = False and check_finite = False] demo_facts
    by simp
  have 3: "fst (lu_solve demo_backend demo_world (demo_factor, 0) demo_rhs 1 False True)
     \<noteq> Inl ValueError_not_finite_lu"
    using finiteness_check [where fac = demo_factor and b = demo_rhs and ext = demo_backend
        and w = demo_world and tr = 1 and ipiv = 0 and overwrite_b = False
        and check_finite = True] s fin
    by simp
  show ?thesis using 1 2 3 by simp
qed

text \<open>
  For complex matrices the claim as stated fails: a single-precision complex matrix
  holding NaN is factorized with checking enabled and no finiteness error.
\<close>

theorem finiteness_check_complex_counterexample:
  "\<not> (fst (private_lu_factor demo_backend demo_world demo_complex_nan False True)
         = Inl ValueError_not_finite
       \<longleftrightarrow> True \<and> (\<exists>x \<in> set (buf demo_complex_nan). \<not> isfinite demo_backend x))"
proof -
  have "private_lu_factor demo_backend demo_world demo_complex_nan False True
        = (Inr (demo_complex_nan, 1),
           \<lparr>ints = [[0, 1], [0]], warnings = [],
            calls = [Getrf RoutineC 1 1 (buf demo_complex_nan)]\<rparr>)"
    by (simp add: private_lu_factor_def demo_backend_def demo_world_def demo_complex_nan_def
      assert_rank2_def routine_for_def astype_def to_fortran_def all_finite_def alloc_ints_def
      update_ints_def record_call_def to_zero_origin_def Let_def)
  then show ?thesis using demo_facts(9) by simp
qed

end
